theory Spec2Isabelle
  imports Main "HOL-Library.Sublist" "HOL-Library.AList"
begin

section \<open>Strings, numbers and paths\<close>

text \<open>
  This theory models the ingestion pipeline of \<^verbatim>\<open>src/bibliothek-cli.ts\<close>: the handler
  of the watcher's \<^verbatim>\<open>add\<close> event, \<^verbatim>\<open>handleMetadata\<close> and \<^verbatim>\<open>insert\<close>. The program is
  written against three libraries, the file system, the path functions and the driver of
  the document store. Each call is modelled by a function on an explicit world, with the
  exceptions of the call as values; the functions of the program are then transcribed
  statement by statement.

  The pipeline uses three string operations of the JavaScript runtime:
  \<^verbatim>\<open>String.prototype.split\<close> with a one-character separator, \<^verbatim>\<open>Array.prototype.join\<close>
  and \<^verbatim>\<open>Number.prototype.toString\<close>. They are written out here as the runtime computes
  them.
\<close>

text \<open>\<^verbatim>\<open>s.split(c)\<close>: the pieces of \<open>s\<close> between the occurrences of \<open>c\<close>; the empty
  string gives one empty piece.\<close>

fun split_chr :: "char \<Rightarrow> string \<Rightarrow> string list" where
  "split_chr c [] = [[]]"
| "split_chr c (x # xs) =
     (if x = c then [] # split_chr c xs
      else (case split_chr c xs of
              [] \<Rightarrow> [[x]]
            | y # ys \<Rightarrow> (x # y) # ys))"

text \<open>\<^verbatim>\<open>xs.join(sep)\<close>.\<close>

fun join_str :: "string \<Rightarrow> string list \<Rightarrow> string" where
  "join_str sep [] = []"
| "join_str sep [x] = x"
| "join_str sep (x # y # ys) = x @ sep @ join_str sep (y # ys)"

text \<open>\<^verbatim>\<open>xs.slice(0, n)\<close> on an array is \<^const>\<open>take\<close>.\<close>

definition slice0 :: "nat \<Rightarrow> 'a list \<Rightarrow> 'a list" where
  "slice0 n xs = take n xs"

text \<open>Line 147: \<^verbatim>\<open>metadata.version.split('.').slice(0, 2).join('.')\<close>.\<close>

definition majorVersion :: "string \<Rightarrow> string" where
  "majorVersion version = join_str ''.'' (slice0 2 (split_chr CHR ''.'' version))"

text \<open>\<^verbatim>\<open>n.toString()\<close> for an integral number: its decimal digits, with a sign when
  negative. The descriptor's \<^verbatim>\<open>number\<close> is modelled as an \<^typ>\<open>int\<close>. (The runtime
  prints a number in this way as long as its magnitude is below \<^verbatim>\<open>1e21\<close>; build numbers
  beyond that are outside the model.)\<close>

definition digit_chr :: "nat \<Rightarrow> char" where
  "digit_chr d = char_of (48 + d)"

function string_of_nat :: "nat \<Rightarrow> string" where
  "string_of_nat n =
     (if n < 10 then [digit_chr n]
      else string_of_nat (n div 10) @ [digit_chr (n mod 10)])"
  by pat_completeness auto
termination
  by (relation "measure (\<lambda>n. n)") auto

declare string_of_nat.simps [simp del]

definition toString :: "int \<Rightarrow> string" where
  "toString i =
     (if i < 0 then CHR ''-'' # string_of_nat (nat (- i)) else string_of_nat (nat i))"

text \<open>
  Paths. Every path of the model is resolved: the list of its components below the
  root, so \<open>[]\<close> is the root. \<^verbatim>\<open>path.join(p, s)\<close> concatenates and normalises
  lexically: the segments of \<open>s\<close> between slashes are applied to \<open>p\<close> from left to right,
  an empty segment and \<^verbatim>\<open>.\<close> change nothing and \<^verbatim>\<open>..\<close> drops the last component.
  (POSIX separators. A slash at the end of \<open>s\<close>, which the library keeps in its result,
  is dropped with the empty segment after it.)
\<close>

type_synonym path = "string list"

definition path_step :: "path \<Rightarrow> string \<Rightarrow> path" where
  "path_step p seg =
     (if seg = [] \<or> seg = ''.'' then p
      else if seg = ''..'' then butlast p
      else p @ [seg])"

definition path_join :: "path \<Rightarrow> string \<Rightarrow> path" where
  "path_join p s = foldl path_step p (split_chr CHR ''/'' s)"

text \<open>\<^verbatim>\<open>path.basename\<close> and \<^verbatim>\<open>path.dirname\<close> of a resolved path; the root has an
  empty base name and is its own directory.\<close>

definition basename :: "path \<Rightarrow> string" where
  "basename p = (if p = [] then [] else last p)"

definition dirname :: "path \<Rightarrow> path" where
  "dirname p = butlast p"

text \<open>\<^verbatim>\<open>s.endsWith(suffix)\<close>.\<close>

definition endsWith :: "string \<Rightarrow> string \<Rightarrow> bool" where
  "endsWith s sfx = suffix sfx s"

text \<open>A name that a directory entry can have: not empty, not \<^verbatim>\<open>.\<close> or \<^verbatim>\<open>..\<close>, and
  without a slash.\<close>

definition valid_name :: "string \<Rightarrow> bool" where
  "valid_name s = (s \<noteq> [] \<and> s \<noteq> ''.'' \<and> s \<noteq> ''..'' \<and> CHR ''/'' \<notin> set s)"

section \<open>The descriptor\<close>

text \<open>The parsed descriptor, \<^verbatim>\<open>interface Metadata\<close> (lines 8 to 26), with the types
  that the interface declares. The downloads object is the list of its entries in the
  order in which \<^verbatim>\<open>for ... in\<close> enumerates its keys.

  The model covers the descriptors that have this shape. \<^verbatim>\<open>JSON.parse\<close> on line 78 does
  not check it: on a parsed value that lacks a field, the program throws a type error
  where it first uses the field (lines 96, 97 and 114 are outside every \<^verbatim>\<open>try\<close> of
  \<^verbatim>\<open>handleMetadata\<close> and \<^verbatim>\<open>insert\<close>). These runs are not part of the model, and no
  statement below says that the exceptions of the model are the only ones.\<close>

record change =
  commit :: string
  summary :: string
  message :: string

record download =
  name :: string
  sha256 :: string

record Metadata =
  project :: string
  repo :: string
  version :: string
  number :: int
  changes :: "change list"
  downloads :: "(string \<times> download) list"
  supportedJavaVersions :: "string list"
  supportedBedrockVersions :: "string list"

section \<open>The file system\<close>

text \<open>
  The file system is a table from resolved paths to nodes. A node is a regular file with
  its content or a directory (links and special files are left out); the root is always
  a directory. The operations are the ones the program calls on \<^verbatim>\<open>fs\<close>; each either
  returns or throws.
\<close>

datatype node = File string | Dir

type_synonym filesystem = "(path \<times> node) list"

datatype exn =
    ENOENT path
  | EISDIR path
  | ENOTDIR path
  | EEXIST path
  | SyntaxError
  | StoreError
  | NotFound string

definition lookup :: "filesystem \<Rightarrow> path \<Rightarrow> node option" where
  "lookup fs p = (if p = [] then Some Dir else map_of fs p)"

definition existsSync :: "filesystem \<Rightarrow> path \<Rightarrow> bool" where
  "existsSync fs p = (lookup fs p \<noteq> None)"

text \<open>\<^verbatim>\<open>fs.lstatSync(p).isDirectory()\<close>.\<close>

definition lstat_isDirectory :: "filesystem \<Rightarrow> path \<Rightarrow> exn + bool" where
  "lstat_isDirectory fs p =
     (case lookup fs p of
        None \<Rightarrow> Inl (ENOENT p)
      | Some Dir \<Rightarrow> Inr True
      | Some (File c) \<Rightarrow> Inr False)"

text \<open>\<^verbatim>\<open>fs.readFileSync(p, 'utf8')\<close>.\<close>

definition readFileSync :: "filesystem \<Rightarrow> path \<Rightarrow> exn + string" where
  "readFileSync fs p =
     (case lookup fs p of
        None \<Rightarrow> Inl (ENOENT p)
      | Some Dir \<Rightarrow> Inl (EISDIR p)
      | Some (File c) \<Rightarrow> Inr c)"

text \<open>\<^verbatim>\<open>fs.mkdirSync(p, { recursive: true })\<close>: walks down from the root and creates
  each missing directory; a regular file on the way makes it throw, and the error names
  the path that was asked for.\<close>

fun mkdir_from :: "filesystem \<Rightarrow> path \<Rightarrow> string list \<Rightarrow> exn + filesystem" where
  "mkdir_from fs base [] = Inr fs"
| "mkdir_from fs base (s # ss) =
     (case lookup fs (base @ [s]) of
        Some Dir \<Rightarrow> mkdir_from fs (base @ [s]) ss
      | Some (File c) \<Rightarrow>
          Inl (if ss = [] then EEXIST (base @ [s]) else ENOTDIR (base @ s # ss))
      | None \<Rightarrow> mkdir_from (AList.update (base @ [s]) Dir fs) (base @ [s]) ss)"

definition mkdirSync :: "filesystem \<Rightarrow> path \<Rightarrow> exn + filesystem" where
  "mkdirSync fs p = mkdir_from fs [] p"

text \<open>\<^verbatim>\<open>fs.copyFileSync(src, dest)\<close>: the source must be a regular file, the destination
  must not be a directory and must lie in a directory; an existing destination file is
  overwritten. Every failure of the model happens before the destination is opened and
  leaves the file system as it was.\<close>

definition copyFileSync :: "filesystem \<Rightarrow> path \<Rightarrow> path \<Rightarrow> exn + filesystem" where
  "copyFileSync fs src dest =
     (case lookup fs src of
        None \<Rightarrow> Inl (ENOENT src)
      | Some Dir \<Rightarrow> Inl (EISDIR src)
      | Some (File c) \<Rightarrow>
          (case lookup fs dest of
             Some Dir \<Rightarrow> Inl (EISDIR dest)
           | _ \<Rightarrow>
              (case lookup fs (dirname dest) of
                 Some Dir \<Rightarrow> Inr (AList.update dest (File c) fs)
               | Some (File d) \<Rightarrow> Inl (ENOTDIR dest)
               | None \<Rightarrow> Inl (ENOENT dest))))"

text \<open>\<^verbatim>\<open>fs.readdirSync(p, { withFileTypes: true })\<close>: the entries directly inside \<open>p\<close>,
  each with its name and whether it is a regular file (\<^verbatim>\<open>Dirent.isFile()\<close>).\<close>

definition is_file :: "filesystem \<Rightarrow> path \<Rightarrow> bool" where
  "is_file fs p = (case lookup fs p of Some (File c) \<Rightarrow> True | _ \<Rightarrow> False)"

definition children :: "filesystem \<Rightarrow> path \<Rightarrow> path list" where
  "children fs p = remdups (filter (\<lambda>q. q \<noteq> [] \<and> butlast q = p) (map fst fs))"

definition readdirSync :: "filesystem \<Rightarrow> path \<Rightarrow> exn + (string \<times> bool) list" where
  "readdirSync fs p =
     (case lookup fs p of
        None \<Rightarrow> Inl (ENOENT p)
      | Some (File c) \<Rightarrow> Inl (ENOTDIR p)
      | Some Dir \<Rightarrow> Inr (map (\<lambda>q. (last q, is_file fs q)) (children fs p)))"

text \<open>\<^verbatim>\<open>fs.rmSync(p)\<close> without options removes a file and throws on a directory or a
  missing path.\<close>

definition rmSync :: "filesystem \<Rightarrow> path \<Rightarrow> exn + filesystem" where
  "rmSync fs p =
     (case lookup fs p of
        None \<Rightarrow> Inl (ENOENT p)
      | Some Dir \<Rightarrow> Inl (EISDIR p)
      | Some (File c) \<Rightarrow> Inr (AList.delete p fs))"

text \<open>\<^verbatim>\<open>fs.rmSync(p, { recursive: true, force: true })\<close> removes \<open>p\<close> and everything
  below it, and does not throw when \<open>p\<close> is missing.\<close>

definition rmSync_rf :: "filesystem \<Rightarrow> path \<Rightarrow> filesystem" where
  "rmSync_rf fs p = filter (\<lambda>e. \<not> prefix p (fst e)) fs"

text \<open>Every component of every path of the table is a name a directory entry can have.\<close>

definition wf_fs :: "filesystem \<Rightarrow> bool" where
  "wf_fs fs = list_all (\<lambda>e. list_all valid_name (fst e)) fs"

section \<open>The document store\<close>

text \<open>
  The four collections of the database \<^verbatim>\<open>library\<close>, each as the list of its documents
  in insertion order. \<^verbatim>\<open>_id\<close> values come from a counter, \<^verbatim>\<open>new Date()\<close> reads the
  clock of the world.
\<close>

record project_doc =
  p_id :: nat
  p_name :: string
  p_friendlyName :: string

record group_doc =
  g_id :: nat
  g_project :: nat
  g_name :: string

record version_doc =
  v_id :: nat
  v_project :: nat
  v_group :: nat
  v_name :: string
  v_time :: nat

record build_doc =
  b_id :: nat
  b_project :: nat
  b_version :: nat
  b_number :: int
  b_time :: nat
  b_changes :: "change list"
  b_downloads :: "(string \<times> download) list"
  b_promoted :: bool
  b_channel :: string
  b_supportedJavaVersions :: "string list"
  b_supportedBedrockVersions :: "string list"

record database =
  projects :: "project_doc list"
  version_groups :: "group_doc list"
  versions :: "version_doc list"
  builds :: "build_doc list"
  next_id :: nat

section \<open>The world\<close>

text \<open>
  Everything the program reads or changes: the file system, the store, the log and the
  clock. Two parts stand for the environment. \<open>ticks\<close> holds what other processes do
  to files during each one-second sleep of the program: the uploader writing a file, or
  removing one that it is about to replace. \<open>faults\<close> is consumed one entry per call to
  the store driver and says whether that call throws or, for a find-and-update, yields
  no document. \<open>trace\<close> records each file and store operation in the order in which the
  program performs it.
\<close>

datatype collection = Projects | VersionGroups | Versions

datatype event =
    EvRead path
  | EvExists path
  | EvMkdir path
  | EvCopy path path
  | EvConnect
  | EvFindOneAndUpdate collection
  | EvInsertOne
  | EvClose
  | EvReaddir path
  | EvRm path
  | EvRmRecursive path

datatype message =
    JarCreated string
  | MetadataUploaded
  | MetadataEmpty path
  | MetadataParsed Metadata
  | ReadingFailed path exn
  | ProjectLine string string
  | VersionLine string
  | BuildLine int
  | DownloadsLine "(string \<times> download) list"
  | ChangesLine "change list"
  | JavaVersionsLine string
  | BedrockVersionsLine string
  | InsertingBuild
  | CleaningUp path
  | Caught exn
  | InsertedBuild int string string nat string nat nat

datatype log_entry = Info message | Error message

datatype fault = NoFault | Throws | ReturnsNull

datatype ext_action = ExtWrite path string | ExtRemove path

record world =
  files :: filesystem
  store :: database
  faults :: "fault list"
  clock :: nat
  ticks :: "ext_action list list"
  logged :: "log_entry list"
  trace :: "event list"

text \<open>The configuration read from the environment at start-up (lines 28 and 32), as
  resolved paths, and the constant of line 33.\<close>

record config =
  uploadFolder :: path
  storagePath :: path

definition buildChannel :: string where
  "buildChannel = ''DEFAULT''"

definition logger :: "log_entry \<Rightarrow> world \<Rightarrow> world" where
  "logger e w = w\<lparr>logged := logged w @ [e]\<rparr>"

definition emit :: "event \<Rightarrow> world \<Rightarrow> world" where
  "emit ev w = w\<lparr>trace := trace w @ [ev]\<rparr>"

text \<open>Line 71, \<^verbatim>\<open>await new Promise(resolve => setTimeout(resolve, 1000))\<close>: the clock
  advances and the actions of the environment that fall into this second happen.\<close>

fun ext_apply :: "filesystem \<Rightarrow> ext_action \<Rightarrow> filesystem" where
  "ext_apply fs (ExtWrite p c) = AList.update p (File c) fs"
| "ext_apply fs (ExtRemove p) = AList.delete p fs"

definition sleep1000 :: "world \<Rightarrow> world" where
  "sleep1000 w =
     (case ticks w of
        [] \<Rightarrow> w\<lparr>clock := clock w + 1000\<rparr>
      | b # bs \<Rightarrow> w\<lparr>files := foldl ext_apply (files w) b, ticks := bs, clock := clock w + 1000\<rparr>)"

subsection \<open>Store operations\<close>

definition take_fault :: "world \<Rightarrow> fault \<times> world" where
  "take_fault w =
     (case faults w of
        [] \<Rightarrow> (NoFault, w)
      | f # fs \<Rightarrow> (f, w\<lparr>faults := fs\<rparr>))"

text \<open>\<^verbatim>\<open>client.connect()\<close> and \<^verbatim>\<open>client.close()\<close>.\<close>

definition client_connect :: "world \<Rightarrow> (exn + unit) \<times> world" where
  "client_connect w =
     (case take_fault (emit EvConnect w) of
        (f, w1) \<Rightarrow> if f = Throws then (Inl StoreError, w1) else (Inr (), w1))"

definition client_close :: "world \<Rightarrow> (exn + unit) \<times> world" where
  "client_close w =
     (case take_fault (emit EvClose w) of
        (f, w1) \<Rightarrow> if f = Throws then (Inl StoreError, w1) else (Inr (), w1))"

text \<open>
  \<^verbatim>\<open>findOneAndUpdate(filter, { $setOnInsert: doc }, { returnDocument: 'after', upsert: true })\<close>:
  the first document matching the filter is returned as it is; when there is none, the
  document is inserted with a new \<^verbatim>\<open>_id\<close> and returned. One function per collection
  (lines 137, 148 and 158).
\<close>

definition upsert_project :: "string \<Rightarrow> string \<Rightarrow> world \<Rightarrow> (exn + project_doc option) \<times> world" where
  "upsert_project nm friendly w =
     (case take_fault (emit (EvFindOneAndUpdate Projects) w) of
        (Throws, w1) \<Rightarrow> (Inl StoreError, w1)
      | (ReturnsNull, w1) \<Rightarrow> (Inr None, w1)
      | (NoFault, w1) \<Rightarrow>
          (case find (\<lambda>d. p_name d = nm) (projects (store w1)) of
             Some d \<Rightarrow> (Inr (Some d), w1)
           | None \<Rightarrow>
               (let d = \<lparr>p_id = next_id (store w1), p_name = nm, p_friendlyName = friendly\<rparr>
                in (Inr (Some d),
                    w1\<lparr>store := (store w1)\<lparr>projects := projects (store w1) @ [d],
                                          next_id := Suc (next_id (store w1))\<rparr>\<rparr>))))"

definition upsert_version_group :: "nat \<Rightarrow> string \<Rightarrow> world \<Rightarrow> (exn + group_doc option) \<times> world" where
  "upsert_version_group pid nm w =
     (case take_fault (emit (EvFindOneAndUpdate VersionGroups) w) of
        (Throws, w1) \<Rightarrow> (Inl StoreError, w1)
      | (ReturnsNull, w1) \<Rightarrow> (Inr None, w1)
      | (NoFault, w1) \<Rightarrow>
          (case find (\<lambda>d. g_project d = pid \<and> g_name d = nm) (version_groups (store w1)) of
             Some d \<Rightarrow> (Inr (Some d), w1)
           | None \<Rightarrow>
               (let d = \<lparr>g_id = next_id (store w1), g_project = pid, g_name = nm\<rparr>
                in (Inr (Some d),
                    w1\<lparr>store := (store w1)\<lparr>version_groups := version_groups (store w1) @ [d],
                                          next_id := Suc (next_id (store w1))\<rparr>\<rparr>))))"

definition upsert_version :: "nat \<Rightarrow> nat \<Rightarrow> string \<Rightarrow> world \<Rightarrow> (exn + version_doc option) \<times> world" where
  "upsert_version pid gid nm w =
     (case take_fault (emit (EvFindOneAndUpdate Versions) w) of
        (Throws, w1) \<Rightarrow> (Inl StoreError, w1)
      | (ReturnsNull, w1) \<Rightarrow> (Inr None, w1)
      | (NoFault, w1) \<Rightarrow>
          (case find (\<lambda>d. v_project d = pid \<and> v_name d = nm) (versions (store w1)) of
             Some d \<Rightarrow> (Inr (Some d), w1)
           | None \<Rightarrow>
               (let d = \<lparr>v_id = next_id (store w1), v_project = pid, v_group = gid,
                         v_name = nm, v_time = clock w1\<rparr>
                in (Inr (Some d),
                    w1\<lparr>store := (store w1)\<lparr>versions := versions (store w1) @ [d],
                                          next_id := Suc (next_id (store w1))\<rparr>\<rparr>))))"

text \<open>\<^verbatim>\<open>collection('builds').insertOne(doc)\<close> (line 175): always appends, and returns the
  new \<^verbatim>\<open>insertedId\<close>.\<close>

definition insertOne_build :: "nat \<Rightarrow> nat \<Rightarrow> Metadata \<Rightarrow> world \<Rightarrow> (exn + nat) \<times> world" where
  "insertOne_build pid vid metadata w =
     (case take_fault (emit EvInsertOne w) of
        (f, w1) \<Rightarrow>
          if f = Throws then (Inl StoreError, w1)
          else
            (let d = \<lparr>b_id = next_id (store w1), b_project = pid, b_version = vid,
                      b_number = number metadata, b_time = clock w1,
                      b_changes = changes metadata, b_downloads = downloads metadata,
                      b_promoted = False, b_channel = buildChannel,
                      b_supportedJavaVersions = supportedJavaVersions metadata,
                      b_supportedBedrockVersions = supportedBedrockVersions metadata\<rparr>
             in (Inr (b_id d),
                 w1\<lparr>store := (store w1)\<lparr>builds := builds (store w1) @ [d],
                                       next_id := Suc (next_id (store w1))\<rparr>\<rparr>)))"

section \<open>The ingestion pipeline\<close>

subsection \<open>\<^verbatim>\<open>insert\<close> (lines 113 to 199)\<close>

text \<open>Line 114.\<close>

definition downloadsPath :: "config \<Rightarrow> Metadata \<Rightarrow> path" where
  "downloadsPath cfg metadata =
     path_join (path_join (path_join (storagePath cfg) (project metadata)) (version metadata))
       (toString (number metadata))"

text \<open>Lines 116 to 120. \<^verbatim>\<open>mkdirSync\<close> is outside every \<^verbatim>\<open>try\<close>: when it throws,
  \<^verbatim>\<open>insert\<close> throws.\<close>

definition ensure_dir :: "path \<Rightarrow> world \<Rightarrow> (exn + unit) \<times> world" where
  "ensure_dir dp w =
     (let w0 = emit (EvExists dp) w in
      if \<not> existsSync (files w0) dp then
        (let w1 = emit (EvMkdir dp) w0 in
         case mkdirSync (files w1) dp of
           Inl e \<Rightarrow> (Inl e, w1)
         | Inr fs' \<Rightarrow> (Inr (), w1\<lparr>files := fs'\<rparr>))
      else (Inr (), w0))"

text \<open>Lines 123 to 128, the body of the first \<^verbatim>\<open>try\<close>: the loop stops at the first
  copy that throws.\<close>

fun copy_loop :: "path \<Rightarrow> path \<Rightarrow> (string \<times> download) list \<Rightarrow> world \<Rightarrow> (exn + unit) \<times> world" where
  "copy_loop folder dp [] w = (Inr (), w)"
| "copy_loop folder dp (kd # ds) w =
     (let srcPath = path_join folder (name (snd kd));
          destPath = path_join dp (name (snd kd));
          w1 = emit (EvCopy srcPath destPath) w
      in case copyFileSync (files w1) srcPath destPath of
           Inl e \<Rightarrow> (Inl e, w1)
         | Inr fs' \<Rightarrow> copy_loop folder dp ds (w1\<lparr>files := fs'\<rparr>))"

text \<open>Lines 135 to 193, the body of the second \<^verbatim>\<open>try\<close>.\<close>

definition store_try :: "Metadata \<Rightarrow> world \<Rightarrow> (exn + unit) \<times> world" where
  "store_try metadata w =
     (case client_connect w of
        (Inl e, w1) \<Rightarrow> (Inl e, w1)
      | (Inr u, w1) \<Rightarrow>
     (case upsert_project (project metadata) (repo metadata) w1 of
        (Inl e, w2) \<Rightarrow> (Inl e, w2)
      | (Inr None, w2) \<Rightarrow> (Inl (NotFound ''Project not found''), w2)
      | (Inr (Some proj), w2) \<Rightarrow>
     (case upsert_version_group (p_id proj) (majorVersion (version metadata)) w2 of
        (Inl e, w3) \<Rightarrow> (Inl e, w3)
      | (Inr None, w3) \<Rightarrow> (Inl (NotFound ''Version group not found''), w3)
      | (Inr (Some versionGroup), w3) \<Rightarrow>
     (case upsert_version (p_id proj) (g_id versionGroup) (version metadata) w3 of
        (Inl e, w4) \<Rightarrow> (Inl e, w4)
      | (Inr None, w4) \<Rightarrow> (Inl (NotFound ''Version not found''), w4)
      | (Inr (Some ver), w4) \<Rightarrow>
     (case insertOne_build (p_id proj) (v_id ver) metadata w4 of
        (Inl e, w5) \<Rightarrow> (Inl e, w5)
      | (Inr insertedId, w5) \<Rightarrow>
          (Inr (),
           logger (Info (InsertedBuild (number metadata) buildChannel (p_name proj) (p_id proj)
                           (v_name ver) (v_id ver) insertedId)) w5))))))"

text \<open>Lines 134 to 198: the \<^verbatim>\<open>catch\<close> logs what the body threw, the \<^verbatim>\<open>finally\<close>
  closes the client; only an exception of \<^verbatim>\<open>close\<close> itself leaves \<^verbatim>\<open>insert\<close>.\<close>

definition store_phase :: "Metadata \<Rightarrow> world \<Rightarrow> (exn + unit) \<times> world" where
  "store_phase metadata w =
     (case store_try metadata w of
        (Inl e, w1) \<Rightarrow> client_close (logger (Error (Caught e)) w1)
      | (Inr u, w1) \<Rightarrow> client_close w1)"

text \<open>The whole of \<^verbatim>\<open>insert\<close>. A failed copy is logged and \<^verbatim>\<open>insert\<close> returns
  (lines 129 to 132).\<close>

definition insert_metadata :: "config \<Rightarrow> Metadata \<Rightarrow> path \<Rightarrow> world \<Rightarrow> (exn + unit) \<times> world" where
  "insert_metadata cfg metadata folder w =
     (case ensure_dir (downloadsPath cfg metadata) w of
        (Inl e, w1) \<Rightarrow> (Inl e, w1)
      | (Inr u, w1) \<Rightarrow>
          (case copy_loop folder (downloadsPath cfg metadata) (downloads metadata) w1 of
             (Inl e, w2) \<Rightarrow> (Inr (), logger (Error (Caught e)) w2)
           | (Inr u, w2) \<Rightarrow> store_phase metadata w2))"

subsection \<open>\<^verbatim>\<open>handleMetadata\<close> (lines 90 to 111)\<close>

text \<open>Line 107, the body of \<^verbatim>\<open>forEach\<close> over the directory entries.\<close>

fun rm_each :: "path \<Rightarrow> (string \<times> bool) list \<Rightarrow> world \<Rightarrow> (exn + unit) \<times> world" where
  "rm_each folder [] w = (Inr (), w)"
| "rm_each folder (f # fs) w =
     (if snd f then
        (let w1 = emit (EvRm (path_join folder (fst f))) w in
         case rmSync (files w1) (path_join folder (fst f)) of
           Inl e \<Rightarrow> (Inl e, w1)
         | Inr fs' \<Rightarrow> rm_each folder fs (w1\<lparr>files := fs'\<rparr>))
      else rm_each folder fs w)"

text \<open>Lines 104 to 110. Both paths are resolved, so \<^verbatim>\<open>path.relative(uploadFolder, folder)\<close>
  is the empty string exactly when they are equal.\<close>

definition staging_clean :: "config \<Rightarrow> path \<Rightarrow> world \<Rightarrow> (exn + unit) \<times> world" where
  "staging_clean cfg folder w =
     (if folder = uploadFolder cfg then
        (let w1 = emit (EvReaddir folder) w in
         case readdirSync (files w1) folder of
           Inl e \<Rightarrow> (Inl e, w1)
         | Inr entries \<Rightarrow> rm_each folder entries w1)
      else
        (let w1 = emit (EvRmRecursive folder) w
         in (Inr (), w1\<lparr>files := rmSync_rf (files w1) folder\<rparr>)))"

definition log_summary :: "Metadata \<Rightarrow> world \<Rightarrow> world" where
  "log_summary metadata w =
     logger (Info InsertingBuild)
    (logger (Info (BedrockVersionsLine (join_str '', '' (supportedBedrockVersions metadata))))
    (logger (Info (JavaVersionsLine (join_str '', '' (supportedJavaVersions metadata))))
    (logger (Info (ChangesLine (changes metadata)))
    (logger (Info (DownloadsLine (downloads metadata)))
    (logger (Info (BuildLine (number metadata)))
    (logger (Info (VersionLine (version metadata)))
    (logger (Info (ProjectLine (repo metadata) (project metadata))) w)))))))"

definition handleMetadata :: "config \<Rightarrow> path \<Rightarrow> Metadata \<Rightarrow> world \<Rightarrow> (exn + unit) \<times> world" where
  "handleMetadata cfg folder metadata w =
     (case insert_metadata cfg metadata folder (log_summary metadata w) of
        (Inl e, w1) \<Rightarrow> (Inl e, w1)
      | (Inr u, w1) \<Rightarrow> staging_clean cfg folder (logger (Info (CleaningUp folder)) w1))"

subsection \<open>The \<^verbatim>\<open>add\<close> handler (lines 58 to 88)\<close>

text \<open>
  One pass through the body of \<^verbatim>\<open>while (true)\<close> (lines 70 to 85), with the way it is
  left: the next iteration, \<^verbatim>\<open>break\<close> or \<^verbatim>\<open>return\<close>. \<^verbatim>\<open>JSON.parse\<close> is a parameter: it
  gives the descriptor or throws. Whatever \<^verbatim>\<open>handleMetadata\<close> throws is caught by the
  same \<^verbatim>\<open>catch\<close> as a failed read.
\<close>

datatype ctl = Continue | Break | Return

definition read_attempt ::
  "config \<Rightarrow> (string \<Rightarrow> Metadata option) \<Rightarrow> path \<Rightarrow> path \<Rightarrow> world \<Rightarrow> ctl \<times> world" where
  "read_attempt cfg JSON_parse filepath folder w =
     (let w1 = emit (EvRead filepath) (sleep1000 w) in
      case readFileSync (files w1) filepath of
        Inl e \<Rightarrow> (Break, logger (Error (ReadingFailed filepath e)) w1)
      | Inr fileContents \<Rightarrow>
          if fileContents = [] then (Break, logger (Error (MetadataEmpty filepath)) w1)
          else
            (case JSON_parse fileContents of
               None \<Rightarrow> (Break, logger (Error (ReadingFailed filepath SyntaxError)) w1)
             | Some metadata \<Rightarrow>
                 (case handleMetadata cfg folder metadata (logger (Info (MetadataParsed metadata)) w1) of
                    (Inl e, w2) \<Rightarrow> (Break, logger (Error (ReadingFailed filepath e)) w2)
                  | (Inr u, w2) \<Rightarrow> (Return, w2))))"

text \<open>\<^verbatim>\<open>while (true)\<close>: \<open>None\<close> is a loop that never ends.\<close>

partial_function (option) while_true :: "(world \<Rightarrow> ctl \<times> world) \<Rightarrow> world \<Rightarrow> (ctl \<times> world) option" where
  "while_true body w =
     (case body w of
        (c, w') \<Rightarrow>
          (case c of
             Continue \<Rightarrow> while_true body w'
           | Break \<Rightarrow> Some (Break, w')
           | Return \<Rightarrow> Some (Return, w')))"

datatype outcome = Ignored | JarLogged | Aborted | Ingested | Rejected exn

definition on_add ::
  "config \<Rightarrow> (string \<Rightarrow> Metadata option) \<Rightarrow> path \<Rightarrow> world \<Rightarrow> (outcome \<times> world) option" where
  "on_add cfg JSON_parse filepath w =
     (let filename = basename filepath; folder = dirname filepath in
      case lstat_isDirectory (files w) filepath of
        Inl e \<Rightarrow> Some (Rejected e, w)
      | Inr True \<Rightarrow> Some (Ignored, w)
      | Inr False \<Rightarrow>
          if endsWith filename ''.jar'' then Some (JarLogged, logger (Info (JarCreated filename)) w)
          else if filename = ''metadata.json'' then
            (case while_true (read_attempt cfg JSON_parse filepath folder)
                    (logger (Info MetadataUploaded) w) of
               None \<Rightarrow> None
             | Some (c, w') \<Rightarrow> Some (if c = Return then Ingested else Aborted, w'))
          else Some (Ignored, w))"

section \<open>Notions used to state the properties\<close>

text \<open>The calls to the store driver, and the copies, among the recorded operations.\<close>

fun is_store_event :: "event \<Rightarrow> bool" where
  "is_store_event EvConnect = True"
| "is_store_event (EvFindOneAndUpdate c) = True"
| "is_store_event EvInsertOne = True"
| "is_store_event EvClose = True"
| "is_store_event ev = False"

fun is_copy_event :: "event \<Rightarrow> bool" where
  "is_copy_event (EvCopy s d) = True"
| "is_copy_event ev = False"

text \<open>The five store calls of the body of the second \<^verbatim>\<open>try\<close>, in program order.\<close>

definition store_events :: "event list" where
  "store_events =
     [EvConnect, EvFindOneAndUpdate Projects, EvFindOneAndUpdate VersionGroups,
      EvFindOneAndUpdate Versions, EvInsertOne]"

text \<open>The documents that the three filters of lines 138, 149 and 159 find in a store for
  a descriptor, when all three are there.\<close>

definition resolution :: "Metadata \<Rightarrow> database \<Rightarrow> (project_doc \<times> group_doc \<times> version_doc) option" where
  "resolution md db =
     (case find (\<lambda>d. p_name d = project md) (projects db) of
        None \<Rightarrow> None
      | Some p \<Rightarrow>
          (case find (\<lambda>d. g_project d = p_id p \<and> g_name d = majorVersion (version md))
                  (version_groups db) of
             None \<Rightarrow> None
           | Some g \<Rightarrow>
               (case find (\<lambda>d. v_project d = p_id p \<and> v_name d = version md) (versions db) of
                  None \<Rightarrow> None
                | Some v \<Rightarrow> Some (p, g, v))))"

text \<open>The first file operation of lines 104 to 110.\<close>

definition clean_start :: "config \<Rightarrow> path \<Rightarrow> event" where
  "clean_start cfg folder =
     (if folder = uploadFolder cfg then EvReaddir folder else EvRmRecursive folder)"

text \<open>
  The stages of an ingestion and the operations that belong to each. Opening and closing
  the store connection belongs to no stage. \<open>position_in_code\<close> is the order in which
  the program runs the stages; \<open>position_in_spec\<close> is the order that the specification
  states (reader, resolver, relocator, recorder, cleaner).
\<close>

datatype stage = Reader | Relocator | Resolver | Recorder | Cleaner

fun stage_of :: "event \<Rightarrow> stage option" where
  "stage_of (EvRead p) = Some Reader"
| "stage_of (EvExists p) = Some Relocator"
| "stage_of (EvMkdir p) = Some Relocator"
| "stage_of (EvCopy s d) = Some Relocator"
| "stage_of EvConnect = None"
| "stage_of (EvFindOneAndUpdate c) = Some Resolver"
| "stage_of EvInsertOne = Some Recorder"
| "stage_of EvClose = None"
| "stage_of (EvReaddir p) = Some Cleaner"
| "stage_of (EvRm p) = Some Cleaner"
| "stage_of (EvRmRecursive p) = Some Cleaner"

definition stages :: "event list \<Rightarrow> stage list" where
  "stages evs = List.map_filter stage_of evs"

fun position_in_code :: "stage \<Rightarrow> nat" where
  "position_in_code Reader = 0"
| "position_in_code Relocator = 1"
| "position_in_code Resolver = 2"
| "position_in_code Recorder = 3"
| "position_in_code Cleaner = 4"

fun position_in_spec :: "stage \<Rightarrow> nat" where
  "position_in_spec Reader = 0"
| "position_in_spec Resolver = 1"
| "position_in_spec Relocator = 2"
| "position_in_spec Recorder = 3"
| "position_in_spec Cleaner = 4"

text \<open>The place of each operation in the program text, from the read of line 73 to the
  removals of lines 107 and 109.\<close>

fun op_rank :: "event \<Rightarrow> nat" where
  "op_rank (EvRead p) = 0"
| "op_rank (EvExists p) = 1"
| "op_rank (EvMkdir p) = 2"
| "op_rank (EvCopy s d) = 3"
| "op_rank EvConnect = 4"
| "op_rank (EvFindOneAndUpdate Projects) = 5"
| "op_rank (EvFindOneAndUpdate VersionGroups) = 6"
| "op_rank (EvFindOneAndUpdate Versions) = 7"
| "op_rank EvInsertOne = 8"
| "op_rank EvClose = 9"
| "op_rank (EvReaddir p) = 10"
| "op_rank (EvRmRecursive p) = 10"
| "op_rank (EvRm p) = 11"

text \<open>A step from \<open>w\<close> to \<open>w'\<close> that only appends operations to the trace, in program
  order and with places between \<open>lo\<close> and \<open>hi\<close>.\<close>

definition phase :: "nat \<Rightarrow> nat \<Rightarrow> world \<Rightarrow> world \<Rightarrow> bool" where
  "phase lo hi w w' =
     (\<exists>evs. trace w' = trace w @ evs \<and> sorted (map op_rank evs)
            \<and> (\<forall>ev\<in>set evs. lo \<le> op_rank ev \<and> op_rank ev \<le> hi))"

subsection \<open>A sample upload\<close>

text \<open>
  The upload of the specification's example: project \<^verbatim>\<open>paper\<close>, version \<^verbatim>\<open>1.19.4\<close>,
  build 50, staged in \<^verbatim>\<open>uploads/b1\<close> with its one artifact. \<open>descriptor_text\<close> is the
  content of its \<^verbatim>\<open>metadata.json\<close> and \<open>md_ex\<close> the object that \<^verbatim>\<open>JSON.parse\<close> makes of
  it; \<open>parse_ex\<close> is \<^verbatim>\<open>JSON.parse\<close> on this text. \<open>md_missing\<close> lists a second
  download that was never uploaded.
\<close>

definition descriptor_text :: string where
  \<open>descriptor_text = ''{"project":"paper","repo":"Paper","version":"1.19.4","number":50,"changes":[],"downloads":{"server":{"name":"paper-50.jar","sha256":"abc"}},"supportedJavaVersions":["17"],"supportedBedrockVersions":[]}''\<close>


definition cfg_ex :: config where
  "cfg_ex = \<lparr>uploadFolder = [''uploads''], storagePath = [''storage'']\<rparr>"

definition folder_ex :: path where
  "folder_ex = [''uploads'', ''b1'']"

definition filepath_ex :: path where
  "filepath_ex = [''uploads'', ''b1'', ''metadata.json'']"

definition md_ex :: Metadata where
  "md_ex = \<lparr>project = ''paper'', repo = ''Paper'', version = ''1.19.4'', number = 50,
            changes = [],
            downloads = [(''server'', \<lparr>name = ''paper-50.jar'', sha256 = ''abc''\<rparr>)],
            supportedJavaVersions = [''17''], supportedBedrockVersions = []\<rparr>"

definition md_missing :: Metadata where
  "md_missing = md_ex\<lparr>downloads :=
     [(''server'', \<lparr>name = ''paper-50.jar'', sha256 = ''abc''\<rparr>),
      (''sources'', \<lparr>name = ''paper-50-sources.jar'', sha256 = ''def''\<rparr>)]\<rparr>"

definition parse_ex :: "string \<Rightarrow> Metadata option" where
  "parse_ex s = (if s = descriptor_text then Some md_ex else None)"

definition empty_store :: database where
  "empty_store = \<lparr>projects = [], version_groups = [], versions = [], builds = [], next_id = 0\<rparr>"

definition w_ex :: world where
  "w_ex = \<lparr>files = [([''uploads''], Dir), ([''uploads'', ''b1''], Dir),
                    ([''uploads'', ''b1'', ''metadata.json''], File descriptor_text),
                    ([''uploads'', ''b1'', ''paper-50.jar''], File ''JAR'')],
           store = empty_store,
           faults = [], clock = 0, ticks = [], logged = [], trace = []\<rparr>"

text \<open>The same descriptor with no download at all.\<close>

definition md_none :: Metadata where
  "md_none = md_ex\<lparr>downloads := []\<rparr>"

text \<open>The upload as it is while the uploader is still at work on the descriptor: the
  file has been created empty, which is what raised the event; during the first second
  after the event the uploader removes it, and during the next one it puts the complete
  file in its place.\<close>

definition w_replaced :: world where
  "w_replaced = w_ex\<lparr>files := [([''uploads''], Dir), ([''uploads'', ''b1''], Dir),
                              ([''uploads'', ''b1'', ''paper-50.jar''], File ''JAR''),
                              ([''uploads'', ''b1'', ''metadata.json''], File [])],
                     ticks := [[ExtRemove [''uploads'', ''b1'', ''metadata.json'']],
                               [ExtWrite [''uploads'', ''b1'', ''metadata.json''] descriptor_text]]\<rparr>"

text \<open>The upload with an empty descriptor file.\<close>

definition w_empty :: world where
  "w_empty = w_ex\<lparr>files := [([''uploads''], Dir), ([''uploads'', ''b1''], Dir),
                           ([''uploads'', ''b1'', ''paper-50.jar''], File ''JAR''),
                           ([''uploads'', ''b1'', ''metadata.json''], File [])]\<rparr>"

text \<open>An upload dropped directly into the watched directory, next to a subdirectory
  that holds another upload.\<close>

definition w_root :: world where
  "w_root = w_ex\<lparr>files := [([''uploads''], Dir),
                         ([''uploads'', ''metadata.json''], File descriptor_text),
                         ([''uploads'', ''paper-50.jar''], File ''JAR''),
                         ([''uploads'', ''b2''], Dir),
                         ([''uploads'', ''b2'', ''other.jar''], File ''OTHER'')]\<rparr>"

text \<open>The equation of the loop, for evaluation.\<close>

declare while_true.simps [code]

section \<open>Facts about splitting and joining\<close>

lemma split_chr_no_sep:
  "c \<notin> set s \<Longrightarrow> split_chr c s = [s]"
  by (induction s) auto

lemma split_chr_append_sep:
  "c \<notin> set a \<Longrightarrow> split_chr c (a @ c # rest) = a # split_chr c rest"
  by (induction a) auto

lemma split_chr_nonempty: "split_chr c s \<noteq> []"
  by (induction s) (auto split: list.splits)

lemma split_chr_join:
  "cs \<noteq> [] \<Longrightarrow> \<forall>x\<in>set cs. c \<notin> set x \<Longrightarrow> split_chr c (join_str [c] cs) = cs"
proof (induction "[c]" cs rule: join_str.induct)
  case 1
  then show ?case by simp
next
  case (2 x)
  then show ?case by (simp add: split_chr_no_sep)
next
  case (3 x y ys)
  then show ?case by (simp add: split_chr_append_sep)
qed

lemma join_split_chr: "join_str [c] (split_chr c s) = s"
proof (induction s)
  case Nil
  then show ?case by simp
next
  case (Cons x xs)
  show ?case
  proof (cases "x = c")
    case True
    with Cons show ?thesis
      by (cases "split_chr c xs") (auto simp: split_chr_nonempty)
  next
    case False
    with Cons show ?thesis
      by (cases "split_chr c xs"; cases "tl (split_chr c xs)") (auto simp: split_chr_nonempty)
  qed
qed

lemma split_chr_pieces: "x \<in> set (split_chr c s) \<Longrightarrow> c \<notin> set x"
  by (induction s arbitrary: x) (auto split: if_splits list.splits)

section \<open>Effects of the operations\<close>

subsection \<open>What logging, tracing and the directory check leave alone\<close>

lemma logger_fields [simp]:
  "files (logger e w) = files w" "store (logger e w) = store w"
  "faults (logger e w) = faults w" "clock (logger e w) = clock w"
  "ticks (logger e w) = ticks w" "trace (logger e w) = trace w"
  "logged (logger e w) = logged w @ [e]"
  by (simp_all add: logger_def)

lemma emit_fields [simp]:
  "files (emit ev w) = files w" "store (emit ev w) = store w"
  "faults (emit ev w) = faults w" "clock (emit ev w) = clock w"
  "ticks (emit ev w) = ticks w" "logged (emit ev w) = logged w"
  "trace (emit ev w) = trace w @ [ev]"
  by (simp_all add: emit_def)

lemma ensure_dir_frame:
  assumes "ensure_dir dp w = (r, w1)"
  shows "store w1 = store w" "faults w1 = faults w" "logged w1 = logged w"
    "clock w1 = clock w" "ticks w1 = ticks w"
    "trace w1 = trace w @ [EvExists dp] \<or> trace w1 = trace w @ [EvExists dp, EvMkdir dp]"
  using assms
  by (auto simp: ensure_dir_def Let_def split: if_splits sum.splits)

lemma copy_loop_frame:
  "copy_loop folder dp ds w = (r, w1) \<Longrightarrow>
     store w1 = store w \<and> faults w1 = faults w \<and> logged w1 = logged w
     \<and> clock w1 = clock w \<and> ticks w1 = ticks w
     \<and> (\<exists>evs. trace w1 = trace w @ evs \<and> list_all is_copy_event evs)"
proof (induction ds arbitrary: w)
  case Nil
  then show ?case by simp
next
  case (Cons kd ds)
  let ?src = "path_join folder (name (snd kd))"
  let ?dst = "path_join dp (name (snd kd))"
  let ?w1 = "emit (EvCopy ?src ?dst) w"
  show ?case
  proof (cases "copyFileSync (files ?w1) ?src ?dst")
    case (Inl e)
    with Cons.prems have "w1 = ?w1" by (simp add: Let_def)
    then show ?thesis by simp
  next
    case (Inr fs')
    with Cons.prems have "copy_loop folder dp ds (?w1\<lparr>files := fs'\<rparr>) = (r, w1)"
      by (simp add: Let_def)
    from Cons.IH [OF this] show ?thesis by auto
  qed
qed

subsection \<open>Copying files\<close>

lemma lookup_update:
  "lookup (AList.update k v fs) p = (if p = [] then Some Dir else if p = k then Some v else lookup fs p)"
  by (simp add: lookup_def update_conv')

lemma lookup_delete:
  "lookup (AList.delete k fs) p = (if p = [] then Some Dir else if p = k then None else lookup fs p)"
  by (simp add: lookup_def delete_conv')

lemma copyFileSync_Inr:
  assumes "copyFileSync fs src dest = Inr fs'"
  shows "dest \<noteq> []" "is_file fs src" "is_file fs' dest"
    "\<And>p. is_file fs p \<Longrightarrow> is_file fs' p"
    "\<And>p. lookup fs p = Some Dir \<Longrightarrow> lookup fs' p = Some Dir"
    "\<And>p. p \<noteq> dest \<Longrightarrow> lookup fs' p = lookup fs p"
  using assms
  by (auto simp: copyFileSync_def is_file_def lookup_def update_conv'
      split: option.splits node.splits if_splits)

lemma copyFileSync_absent:
  "lookup fs src = None \<Longrightarrow> copyFileSync fs src dest = Inl (ENOENT src)"
  by (simp add: copyFileSync_def)

lemma copy_loop_append:
  "copy_loop folder dp (xs @ ys) w =
     (case copy_loop folder dp xs w of
        (Inl e, w1) \<Rightarrow> (Inl e, w1)
      | (Inr u, w1) \<Rightarrow> copy_loop folder dp ys w1)"
  by (induction xs arbitrary: w) (auto simp: Let_def split: sum.splits)

lemma copy_loop_files:
  "copy_loop folder dp ds w = (Inr (), w1) \<Longrightarrow>
     (\<forall>kd\<in>set ds. is_file (files w1) (path_join dp (name (snd kd))))
     \<and> (\<forall>p. is_file (files w) p \<longrightarrow> is_file (files w1) p)
     \<and> (\<forall>p. lookup (files w) p = Some Dir \<longrightarrow> lookup (files w1) p = Some Dir)"
proof (induction ds arbitrary: w)
  case Nil
  then show ?case by simp
next
  case (Cons kd ds)
  let ?src = "path_join folder (name (snd kd))"
  let ?dst = "path_join dp (name (snd kd))"
  let ?w1 = "emit (EvCopy ?src ?dst) w"
  from Cons.prems obtain fs' where
    c: "copyFileSync (files w) ?src ?dst = Inr fs'" and
    r: "copy_loop folder dp ds (?w1\<lparr>files := fs'\<rparr>) = (Inr (), w1)"
    by (auto simp: Let_def split: sum.splits)
  from Cons.IH [OF r] have
    ih1: "\<forall>kd\<in>set ds. is_file (files w1) (path_join dp (name (snd kd)))" and
    ih2: "\<forall>p. is_file fs' p \<longrightarrow> is_file (files w1) p" and
    ih3: "\<forall>p. lookup fs' p = Some Dir \<longrightarrow> lookup (files w1) p = Some Dir"
    by simp_all
  from copyFileSync_Inr(3) [OF c] ih2 have "is_file (files w1) ?dst" by blast
  moreover from copyFileSync_Inr(4) [OF c] ih2 have "\<forall>p. is_file (files w) p \<longrightarrow> is_file (files w1) p"
    by blast
  moreover from copyFileSync_Inr(5) [OF c] ih3
  have "\<forall>p. lookup (files w) p = Some Dir \<longrightarrow> lookup (files w1) p = Some Dir"
    by blast
  ultimately show ?case using ih1 by simp
qed

lemma copy_loop_Inl_frame:
  assumes "copy_loop folder dp ds w = (r, w1)"
  shows "filter is_store_event (trace w1) = filter is_store_event (trace w)"
proof -
  from copy_loop_frame [OF assms] obtain evs where
    t: "trace w1 = trace w @ evs" and c: "list_all is_copy_event evs" by blast
  have "filter is_store_event evs = []"
    using c by (induction evs) (auto elim: is_copy_event.elims)
  with t show ?thesis by simp
qed

subsection \<open>The calls to the store\<close>

lemma find_snoc:
  "find P (xs @ [d]) = (case find P xs of None \<Rightarrow> (if P d then Some d else None) | Some x \<Rightarrow> Some x)"
  by (induction xs) auto

lemma client_connect_frame:
  assumes "client_connect w = (r, w1)"
  shows "files w1 = files w" "store w1 = store w" "logged w1 = logged w" "clock w1 = clock w"
    "ticks w1 = ticks w" "trace w1 = trace w @ [EvConnect]"
  using assms
  by (auto simp: client_connect_def take_fault_def split: list.splits if_splits)

lemma client_close_frame:
  assumes "client_close w = (r, w1)"
  shows "files w1 = files w" "store w1 = store w" "logged w1 = logged w" "clock w1 = clock w"
    "ticks w1 = ticks w" "trace w1 = trace w @ [EvClose]"
  using assms
  by (auto simp: client_close_def take_fault_def split: list.splits if_splits)

lemma upsert_project_frame:
  assumes "upsert_project nm fr w = (r, w1)"
  shows "files w1 = files w" "logged w1 = logged w" "clock w1 = clock w" "ticks w1 = ticks w"
    "trace w1 = trace w @ [EvFindOneAndUpdate Projects]"
    "builds (store w1) = builds (store w)"
    "version_groups (store w1) = version_groups (store w)"
    "versions (store w1) = versions (store w)"
  using assms
  by (auto simp: upsert_project_def take_fault_def Let_def
      split: list.splits fault.splits option.splits)

lemma upsert_project_found:
  assumes "upsert_project nm fr w = (Inr (Some d), w1)"
  shows "find (\<lambda>d. p_name d = nm) (projects (store w1)) = Some d"
  using assms
  by (auto simp: upsert_project_def take_fault_def Let_def find_snoc
      split: list.splits fault.splits option.splits)

lemma upsert_version_group_frame:
  assumes "upsert_version_group pid nm w = (r, w1)"
  shows "files w1 = files w" "logged w1 = logged w" "clock w1 = clock w" "ticks w1 = ticks w"
    "trace w1 = trace w @ [EvFindOneAndUpdate VersionGroups]"
    "builds (store w1) = builds (store w)"
    "projects (store w1) = projects (store w)"
    "versions (store w1) = versions (store w)"
  using assms
  by (auto simp: upsert_version_group_def take_fault_def Let_def
      split: list.splits fault.splits option.splits)

lemma upsert_version_group_found:
  assumes "upsert_version_group pid nm w = (Inr (Some d), w1)"
  shows "find (\<lambda>d. g_project d = pid \<and> g_name d = nm) (version_groups (store w1)) = Some d"
  using assms
  by (auto simp: upsert_version_group_def take_fault_def Let_def find_snoc
      split: list.splits fault.splits option.splits)

lemma upsert_version_frame:
  assumes "upsert_version pid gid nm w = (r, w1)"
  shows "files w1 = files w" "logged w1 = logged w" "clock w1 = clock w" "ticks w1 = ticks w"
    "trace w1 = trace w @ [EvFindOneAndUpdate Versions]"
    "builds (store w1) = builds (store w)"
    "projects (store w1) = projects (store w)"
    "version_groups (store w1) = version_groups (store w)"
  using assms
  by (auto simp: upsert_version_def take_fault_def Let_def
      split: list.splits fault.splits option.splits)

lemma upsert_version_found:
  assumes "upsert_version pid gid nm w = (Inr (Some d), w1)"
  shows "find (\<lambda>d. v_project d = pid \<and> v_name d = nm) (versions (store w1)) = Some d"
  using assms
  by (auto simp: upsert_version_def take_fault_def Let_def find_snoc
      split: list.splits fault.splits option.splits)

lemma insertOne_build_frame:
  assumes "insertOne_build pid vid md w = (r, w1)"
  shows "files w1 = files w" "logged w1 = logged w" "clock w1 = clock w" "ticks w1 = ticks w"
    "trace w1 = trace w @ [EvInsertOne]"
    "projects (store w1) = projects (store w)"
    "version_groups (store w1) = version_groups (store w)"
    "versions (store w1) = versions (store w)"
  using assms
  by (auto simp: insertOne_build_def take_fault_def Let_def split: list.splits if_splits)

lemma insertOne_build_Inl:
  assumes "insertOne_build pid vid md w = (Inl e, w1)"
  shows "store w1 = store w"
  using assms
  by (auto simp: insertOne_build_def take_fault_def Let_def split: list.splits if_splits)

lemma insertOne_build_Inr:
  assumes "insertOne_build pid vid md w = (Inr i, w1)"
  shows "\<exists>b. builds (store w1) = builds (store w) @ [b]
           \<and> b_id b = next_id (store w) \<and> b_project b = pid \<and> b_version b = vid
           \<and> b_number b = number md \<and> b_downloads b = downloads md \<and> b_changes b = changes md
           \<and> b_promoted b = False \<and> b_channel b = buildChannel
           \<and> next_id (store w1) = Suc (next_id (store w))"
  using assms
  by (auto simp: insertOne_build_def take_fault_def Let_def split: list.splits if_splits)

subsection \<open>The body of the second \<^verbatim>\<open>try\<close>\<close>

lemma store_try_Inr:
  assumes "store_try md w = (Inr (), w1)"
  shows "\<exists>p g v b. resolution md (store w1) = Some (p, g, v)
           \<and> builds (store w1) = builds (store w) @ [b]
           \<and> b_project b = p_id p \<and> b_version b = v_id v \<and> b_number b = number md
           \<and> b_downloads b = downloads md \<and> b_changes b = changes md
           \<and> b_promoted b = False \<and> b_channel b = buildChannel
           \<and> next_id (store w1) = Suc (b_id b)"
    and "trace w1 = trace w @ store_events"
    and "files w1 = files w"
proof -
  from assms obtain wa proj wb vg wc ver wd i we where
    c: "client_connect w = (Inr (), wa)" and
    p: "upsert_project (project md) (repo md) wa = (Inr (Some proj), wb)" and
    g: "upsert_version_group (p_id proj) (majorVersion (version md)) wb = (Inr (Some vg), wc)" and
    v: "upsert_version (p_id proj) (g_id vg) (version md) wc = (Inr (Some ver), wd)" and
    b: "insertOne_build (p_id proj) (v_id ver) md wd = (Inr i, we)" and
    w1: "w1 = logger (Info (InsertedBuild (number md) buildChannel (p_name proj) (p_id proj)
                           (v_name ver) (v_id ver) i)) we"
    by (auto simp: store_try_def split: prod.splits sum.splits option.splits)
  have fp: "find (\<lambda>d. p_name d = project md) (projects (store w1)) = Some proj"
    using upsert_project_found [OF p] upsert_version_group_frame(7) [OF g]
      upsert_version_frame(7) [OF v] insertOne_build_frame(6) [OF b] w1 by simp
  have fg: "find (\<lambda>d. g_project d = p_id proj \<and> g_name d = majorVersion (version md))
              (version_groups (store w1)) = Some vg"
    using upsert_version_group_found [OF g] upsert_version_frame(8) [OF v]
      insertOne_build_frame(7) [OF b] w1 by simp
  have fv: "find (\<lambda>d. v_project d = p_id proj \<and> v_name d = version md) (versions (store w1)) = Some ver"
    using upsert_version_found [OF v] insertOne_build_frame(8) [OF b] w1 by simp
  have res: "resolution md (store w1) = Some (proj, vg, ver)"
    by (simp add: resolution_def fp fg fv)
  have bs: "builds (store wd) = builds (store w)"
    using client_connect_frame(2) [OF c] upsert_project_frame(6) [OF p]
      upsert_version_group_frame(6) [OF g] upsert_version_frame(6) [OF v] by simp
  from insertOne_build_Inr [OF b] bs w1 res
  show "\<exists>p g v b. resolution md (store w1) = Some (p, g, v)
           \<and> builds (store w1) = builds (store w) @ [b]
           \<and> b_project b = p_id p \<and> b_version b = v_id v \<and> b_number b = number md
           \<and> b_downloads b = downloads md \<and> b_changes b = changes md
           \<and> b_promoted b = False \<and> b_channel b = buildChannel
           \<and> next_id (store w1) = Suc (b_id b)"
    by auto
  show "trace w1 = trace w @ store_events"
    using client_connect_frame(6) [OF c] upsert_project_frame(5) [OF p]
      upsert_version_group_frame(5) [OF g] upsert_version_frame(5) [OF v]
      insertOne_build_frame(5) [OF b] w1
    by (simp add: store_events_def)
  show "files w1 = files w"
    using client_connect_frame(1) [OF c] upsert_project_frame(1) [OF p]
      upsert_version_group_frame(1) [OF g] upsert_version_frame(1) [OF v]
      insertOne_build_frame(1) [OF b] w1
    by simp
qed

lemma store_try_Inl:
  assumes "store_try md w = (Inl e, w1)"
  shows "builds (store w1) = builds (store w)" "logged w1 = logged w" "files w1 = files w"
    "\<exists>evs. trace w1 = trace w @ evs \<and> evs \<noteq> [] \<and> prefix evs store_events"
proof -
  have "builds (store w1) = builds (store w) \<and> logged w1 = logged w \<and> files w1 = files w
        \<and> (\<exists>evs. trace w1 = trace w @ evs \<and> evs \<noteq> [] \<and> prefix evs store_events)"
  proof (cases "client_connect w")
    case (Pair r1 wa)
    note c = client_connect_frame [OF Pair]
    show ?thesis
    proof (cases r1)
      case (Inl e1)
      with Pair assms have "w1 = wa" by (simp add: store_try_def)
      with c show ?thesis by (auto simp: store_events_def)
    next
      case (Inr u)
      obtain r2 wb where p: "upsert_project (project md) (repo md) wa = (r2, wb)"
        by fastforce
      note pf = upsert_project_frame [OF p]
      show ?thesis
      proof (cases "\<exists>proj. r2 = Inr (Some proj)")
        case False
        with Pair Inr p assms have "w1 = wb"
          by (auto simp: store_try_def split: sum.splits option.splits)
        with c pf show ?thesis by (auto simp: store_events_def)
      next
        case True
        then obtain proj where r2: "r2 = Inr (Some proj)" by blast
        obtain r3 wc where g: "upsert_version_group (p_id proj) (majorVersion (version md)) wb = (r3, wc)"
          by fastforce
        note gf = upsert_version_group_frame [OF g]
        show ?thesis
        proof (cases "\<exists>vg. r3 = Inr (Some vg)")
          case False
          with Pair Inr p r2 g assms have "w1 = wc"
            by (auto simp: store_try_def split: sum.splits option.splits)
          with c pf gf show ?thesis by (auto simp: store_events_def)
        next
          case True
          then obtain vg where r3: "r3 = Inr (Some vg)" by blast
          obtain r4 wd where v: "upsert_version (p_id proj) (g_id vg) (version md) wc = (r4, wd)"
            by fastforce
          note vf = upsert_version_frame [OF v]
          show ?thesis
          proof (cases "\<exists>ver. r4 = Inr (Some ver)")
            case False
            with Pair Inr p r2 g r3 v assms have "w1 = wd"
              by (auto simp: store_try_def split: sum.splits option.splits)
            with c pf gf vf show ?thesis by (auto simp: store_events_def)
          next
            case True
            then obtain ver where r4: "r4 = Inr (Some ver)" by blast
            obtain r5 we where b: "insertOne_build (p_id proj) (v_id ver) md wd = (r5, we)"
              by fastforce
            from Pair Inr p r2 g r3 v r4 b assms obtain e5 where r5: "r5 = Inl e5" and "w1 = we"
              by (auto simp: store_try_def split: sum.splits)
            with c pf gf vf insertOne_build_frame [OF b] insertOne_build_Inl [of "p_id proj" "v_id ver" md wd e5 we] b
            show ?thesis by (auto simp: store_events_def)
          qed
        qed
      qed
    qed
  qed
  then show "builds (store w1) = builds (store w)" "logged w1 = logged w" "files w1 = files w"
    "\<exists>evs. trace w1 = trace w @ evs \<and> evs \<noteq> [] \<and> prefix evs store_events"
    by simp_all
qed

lemma store_try_resolved:
  assumes res: "resolution md (store w) = Some (p, g, v)" and nf: "faults w = []"
  shows "\<exists>w1 b. store_try md w = (Inr (), w1)
           \<and> projects (store w1) = projects (store w)
           \<and> version_groups (store w1) = version_groups (store w)
           \<and> versions (store w1) = versions (store w)
           \<and> builds (store w1) = builds (store w) @ [b]
           \<and> b_id b = next_id (store w)
           \<and> b_project b = p_id p \<and> b_version b = v_id v \<and> b_number b = number md"
proof -
  from res have
    fp: "find (\<lambda>d. p_name d = project md) (projects (store w)) = Some p" and
    fg: "find (\<lambda>d. g_project d = p_id p \<and> g_name d = majorVersion (version md))
              (version_groups (store w)) = Some g" and
    fv: "find (\<lambda>d. v_project d = p_id p \<and> v_name d = version md) (versions (store w)) = Some v"
    by (auto simp: resolution_def split: option.splits)
  let ?wa = "emit EvConnect w"
  let ?wb = "emit (EvFindOneAndUpdate Projects) ?wa"
  let ?wc = "emit (EvFindOneAndUpdate VersionGroups) ?wb"
  let ?wd = "emit (EvFindOneAndUpdate Versions) ?wc"
  have c: "client_connect w = (Inr (), ?wa)"
    by (simp add: client_connect_def take_fault_def nf)
  have pp: "upsert_project (project md) (repo md) ?wa = (Inr (Some p), ?wb)"
    by (simp add: upsert_project_def take_fault_def nf fp)
  have gg: "upsert_version_group (p_id p) (majorVersion (version md)) ?wb = (Inr (Some g), ?wc)"
    by (simp add: upsert_version_group_def take_fault_def nf fg)
  have vv: "upsert_version (p_id p) (g_id g) (version md) ?wc = (Inr (Some v), ?wd)"
    by (simp add: upsert_version_def take_fault_def nf fv)
  obtain r we where b: "insertOne_build (p_id p) (v_id v) md ?wd = (r, we)" by fastforce
  then obtain i where r: "r = Inr i"
    by (auto simp: insertOne_build_def take_fault_def nf Let_def)
  from insertOne_build_Inr [OF b [unfolded r]] insertOne_build_frame [OF b]
  show ?thesis
    by (auto simp: store_try_def c pp gg vv b r)
qed

subsection \<open>\<^verbatim>\<open>insert\<close> as a whole\<close>

lemma store_phase_frame:
  assumes "store_phase md w = (r, w1)"
  shows "files w1 = files w"
    "\<exists>evs. trace w1 = trace w @ evs @ [EvClose] \<and> evs \<noteq> [] \<and> prefix evs store_events"
    "r = Inr () \<or> r = Inl StoreError"
proof -
  obtain r0 w0 where t: "store_try md w = (r0, w0)" by fastforce
  have "files w1 = files w
        \<and> (\<exists>evs. trace w1 = trace w @ evs @ [EvClose] \<and> evs \<noteq> [] \<and> prefix evs store_events)
        \<and> (r = Inr () \<or> r = Inl StoreError)"
  proof (cases r0)
    case (Inl e)
    with t assms have c: "client_close (logger (Error (Caught e)) w0) = (r, w1)"
      by (simp add: store_phase_def)
    have "r = Inr () \<or> r = Inl StoreError"
      using c by (auto simp: client_close_def split: prod.splits if_splits)
    with client_close_frame [OF c] store_try_Inl [OF t [unfolded Inl]] show ?thesis
      by auto
  next
    case (Inr u)
    with t assms have c: "client_close w0 = (r, w1)"
      by (simp add: store_phase_def)
    have "r = Inr () \<or> r = Inl StoreError"
      using c by (auto simp: client_close_def split: prod.splits if_splits)
    moreover have "store_try md w = (Inr (), w0)" using t Inr by simp
    note store_try_Inr(2,3) [OF this]
    ultimately show ?thesis
      using client_close_frame [OF c] by (auto simp: store_events_def)
  qed
  then show "files w1 = files w"
    "\<exists>evs. trace w1 = trace w @ evs @ [EvClose] \<and> evs \<noteq> [] \<and> prefix evs store_events"
    "r = Inr () \<or> r = Inl StoreError"
    by simp_all
qed

lemma store_phase_builds:
  assumes "store_phase md w = (r, w1)" and "builds (store w1) \<noteq> builds (store w)"
  shows "\<exists>w0. store_try md w = (Inr (), w0) \<and> store w1 = store w0"
proof -
  obtain r0 w0 where t: "store_try md w = (r0, w0)" by fastforce
  show ?thesis
  proof (cases r0)
    case (Inl e)
    with t assms(1) have c: "client_close (logger (Error (Caught e)) w0) = (r, w1)"
      by (simp add: store_phase_def)
    from client_close_frame(2) [OF c] store_try_Inl(1) [OF t [unfolded Inl]] assms(2)
    show ?thesis by simp
  next
    case (Inr u)
    with t assms(1) have c: "client_close w0 = (r, w1)"
      by (simp add: store_phase_def)
    from client_close_frame(2) [OF c] t Inr show ?thesis by simp
  qed
qed

lemma insert_metadata_cases:
  assumes "insert_metadata cfg md folder w = (r, w')"
  obtains
    (mkdir_threw) e where "ensure_dir (downloadsPath cfg md) w = (Inl e, w')" "r = Inl e"
  | (copy_threw) w1 w2 e where "ensure_dir (downloadsPath cfg md) w = (Inr (), w1)"
      "copy_loop folder (downloadsPath cfg md) (downloads md) w1 = (Inl e, w2)"
      "r = Inr ()" "w' = logger (Error (Caught e)) w2"
  | (stored) w1 w2 where "ensure_dir (downloadsPath cfg md) w = (Inr (), w1)"
      "copy_loop folder (downloadsPath cfg md) (downloads md) w1 = (Inr (), w2)"
      "store_phase md w2 = (r, w')"
  using assms
  by (auto simp: insert_metadata_def split: prod.splits sum.splits)

subsection \<open>Program order of the recorded operations\<close>

lemma phase_refl: "phase lo hi w w"
  by (simp add: phase_def)

lemma phase_logger [simp]: "phase lo hi w (logger e w') = phase lo hi w w'"
  "phase lo hi (logger e w) w' = phase lo hi w w'"
  by (simp_all add: phase_def)

lemma phase_trans:
  assumes "phase lo1 hi1 w w1" "phase lo2 hi2 w1 w2" "hi1 \<le> lo2" "lo \<le> lo1" "lo \<le> lo2"
    "hi1 \<le> hi" "hi2 \<le> hi"
  shows "phase lo hi w w2"
proof -
  from assms(1) obtain e1 where 1: "trace w1 = trace w @ e1" "sorted (map op_rank e1)"
    "\<forall>ev\<in>set e1. lo1 \<le> op_rank ev \<and> op_rank ev \<le> hi1"
    by (auto simp: phase_def)
  from assms(2) obtain e2 where 2: "trace w2 = trace w1 @ e2" "sorted (map op_rank e2)"
    "\<forall>ev\<in>set e2. lo2 \<le> op_rank ev \<and> op_rank ev \<le> hi2"
    by (auto simp: phase_def)
  have "trace w2 = trace w @ (e1 @ e2)" using 1 2 by simp
  moreover have "sorted (map op_rank (e1 @ e2))"
    using 1 2 assms(3) by (fastforce simp: sorted_append)
  moreover have "\<forall>ev\<in>set (e1 @ e2). lo \<le> op_rank ev \<and> op_rank ev \<le> hi"
    using 1 2 assms(4-7) by fastforce
  ultimately show ?thesis unfolding phase_def by blast
qed

lemma phase_emit:
  "lo \<le> op_rank ev \<Longrightarrow> op_rank ev \<le> hi \<Longrightarrow> phase lo hi w (emit ev w)"
  by (simp add: phase_def)

lemma phase_files [simp]: "phase lo hi w (w'\<lparr>files := fs\<rparr>) = phase lo hi w w'"
  by (simp add: phase_def)

lemma ensure_dir_phase: "ensure_dir dp w = (r, w1) \<Longrightarrow> phase 1 2 w w1"
  using ensure_dir_frame(6) [of dp w r w1] by (auto simp: phase_def)

lemma copy_loop_phase: "copy_loop folder dp ds w = (r, w1) \<Longrightarrow> phase 3 3 w w1"
proof -
  assume "copy_loop folder dp ds w = (r, w1)"
  from copy_loop_frame [OF this] obtain evs where
    t: "trace w1 = trace w @ evs" and c: "list_all is_copy_event evs" by blast
  have "\<And>ev. is_copy_event ev \<Longrightarrow> op_rank ev = 3"
    by (erule is_copy_event.elims) simp_all
  with c have "\<forall>ev\<in>set evs. op_rank ev = 3"
    by (simp add: list_all_iff)
  then have "map op_rank evs = replicate (length evs) 3"
    by (induction evs) auto
  then have "sorted (map op_rank evs)" by (simp add: sorted_replicate)
  with t \<open>\<forall>ev\<in>set evs. op_rank ev = 3\<close> show ?thesis by (auto simp: phase_def)
qed

lemma prefix_store_events:
  assumes "prefix evs store_events"
  shows "sorted (map op_rank evs)" "\<forall>ev\<in>set evs. 4 \<le> op_rank ev \<and> op_rank ev \<le> 8"
proof -
  from assms obtain zs where z: "store_events = evs @ zs" by (auto simp: prefix_def)
  have "sorted (map op_rank store_events)" by (simp add: store_events_def)
  then show "sorted (map op_rank evs)" unfolding z by (simp add: sorted_append)
  have "\<forall>ev\<in>set store_events. 4 \<le> op_rank ev \<and> op_rank ev \<le> 8"
    by (simp add: store_events_def)
  then show "\<forall>ev\<in>set evs. 4 \<le> op_rank ev \<and> op_rank ev \<le> 8" unfolding z by simp
qed

lemma store_phase_phase: "store_phase md w = (r, w1) \<Longrightarrow> phase 4 9 w w1"
proof -
  assume "store_phase md w = (r, w1)"
  from store_phase_frame(2) [OF this] obtain evs where
    t: "trace w1 = trace w @ evs @ [EvClose]" and p: "prefix evs store_events" by blast
  from prefix_store_events [OF p] have "sorted (map op_rank (evs @ [EvClose]))"
    "\<forall>ev\<in>set (evs @ [EvClose]). 4 \<le> op_rank ev \<and> op_rank ev \<le> 9"
    by (fastforce simp: sorted_append)+
  with t show ?thesis unfolding phase_def by force
qed

lemma insert_metadata_phase:
  assumes "insert_metadata cfg md folder w = (r, w1)"
  shows "phase 1 9 w w1"
  using assms
proof (cases rule: insert_metadata_cases)
  case (mkdir_threw e)
  from ensure_dir_phase [OF mkdir_threw(1)] show ?thesis
    by (rule phase_trans [OF _ phase_refl [of 2 2]]) simp_all
next
  case (copy_threw wa wb e)
  from phase_trans [OF ensure_dir_phase [OF copy_threw(1)] copy_loop_phase [OF copy_threw(2)], of 1 9]
  show ?thesis using copy_threw(4) by simp
next
  case (stored wa wb)
  have "phase 1 3 w wb"
    by (rule phase_trans [OF ensure_dir_phase [OF stored(1)] copy_loop_phase [OF stored(2)]]) simp_all
  from phase_trans [OF this store_phase_phase [OF stored(3)], of 1 9] show ?thesis by simp
qed

lemma rm_each_phase: "rm_each folder ents w = (r, w1) \<Longrightarrow> phase 11 11 w w1"
proof (induction ents arbitrary: w)
  case Nil
  then show ?case by (simp add: phase_refl)
next
  case (Cons f fs)
  show ?case
  proof (cases "snd f")
    case False
    with Cons show ?thesis by simp
  next
    case True
    let ?p = "path_join folder (fst f)"
    have e: "phase 11 11 w (emit (EvRm ?p) w)" by (simp add: phase_emit)
    show ?thesis
    proof (cases "rmSync (files w) ?p")
      case (Inl x)
      with Cons.prems True have "w1 = emit (EvRm ?p) w" by (simp add: Let_def)
      with e show ?thesis by simp
    next
      case (Inr fs')
      with Cons.prems True have "rm_each folder fs (emit (EvRm ?p) w\<lparr>files := fs'\<rparr>) = (r, w1)"
        by (simp add: Let_def)
      from Cons.IH [OF this] have "phase 11 11 (emit (EvRm ?p) w) w1"
        by (simp add: phase_def)
      from phase_trans [OF e this, of 11 11] show ?thesis by simp
    qed
  qed
qed

lemma staging_clean_phase: "staging_clean cfg folder w = (r, w1) \<Longrightarrow> phase 10 11 w w1"
proof -
  assume a: "staging_clean cfg folder w = (r, w1)"
  show ?thesis
  proof (cases "folder = uploadFolder cfg")
    case False
    with a have "w1 = (emit (EvRmRecursive folder) w)\<lparr>files := rmSync_rf (files w) folder\<rparr>"
      by (auto simp: staging_clean_def Let_def)
    then show ?thesis by (simp add: phase_emit)
  next
    case True
    have e: "phase 10 10 w (emit (EvReaddir folder) w)" by (simp add: phase_emit)
    show ?thesis
    proof (cases "readdirSync (files w) folder")
      case (Inl x)
      with a True have "w1 = emit (EvReaddir folder) w" by (auto simp: staging_clean_def Let_def)
      then show ?thesis by (simp add: phase_emit)
    next
      case (Inr ents)
      with a True have "rm_each folder ents (emit (EvReaddir folder) w) = (r, w1)"
        by (auto simp: staging_clean_def Let_def)
      from phase_trans [OF e rm_each_phase [OF this], of 10 11] show ?thesis by simp
    qed
  qed
qed

lemma log_summary_fields [simp]:
  "files (log_summary md w) = files w" "store (log_summary md w) = store w"
  "faults (log_summary md w) = faults w" "trace (log_summary md w) = trace w"
  "clock (log_summary md w) = clock w" "ticks (log_summary md w) = ticks w"
  by (simp_all add: log_summary_def)

lemma handleMetadata_phase:
  assumes "handleMetadata cfg folder md w = (r, w1)"
  shows "phase 1 11 w w1"
proof -
  obtain r0 w0 where i: "insert_metadata cfg md folder (log_summary md w) = (r0, w0)"
    by fastforce
  from insert_metadata_phase [OF i] have p0: "phase 1 9 w w0" by (simp add: phase_def)
  show ?thesis
  proof (cases r0)
    case (Inl e)
    with assms i have "w1 = w0" by (simp add: handleMetadata_def)
    with p0 show ?thesis by (auto intro: phase_trans [OF _ phase_refl [of 9 9]])
  next
    case (Inr u)
    with assms i have "staging_clean cfg folder (logger (Info (CleaningUp folder)) w0) = (r, w1)"
      by (simp add: handleMetadata_def)
    from staging_clean_phase [OF this] have "phase 10 11 w0 w1" by simp
    from phase_trans [OF p0 this, of 1 11] show ?thesis by simp
  qed
qed

lemma sleep1000_trace [simp]: "trace (sleep1000 w) = trace w"
  by (simp add: sleep1000_def split: list.splits)

lemma read_attempt_phase:
  assumes "read_attempt cfg parse fp folder w = (c, w1)"
  shows "phase 0 11 w w1" "c \<noteq> Continue"
proof -
  let ?w1 = "emit (EvRead fp) (sleep1000 w)"
  have e: "phase 0 0 w ?w1" by (simp add: phase_def)
  have "phase 0 11 w w1 \<and> c \<noteq> Continue"
  proof (cases "\<exists>s md. readFileSync (files ?w1) fp = Inr s \<and> s \<noteq> [] \<and> parse s = Some md")
    case False
    with assms have "trace w1 = trace ?w1" "c = Break"
      by (auto simp: read_attempt_def Let_def split: sum.splits if_splits option.splits)
    then show ?thesis by (simp add: phase_def)
  next
    case True
    then obtain s md where s: "readFileSync (files ?w1) fp = Inr s" "s \<noteq> []" "parse s = Some md"
      by blast
    obtain r0 w0 where h: "handleMetadata cfg folder md (logger (Info (MetadataParsed md)) ?w1) = (r0, w0)"
      by fastforce
    from handleMetadata_phase [OF h] have p: "phase 1 11 ?w1 w0" by simp
    from assms s h have "trace w1 = trace w0" "c \<noteq> Continue"
      by (auto simp: read_attempt_def Let_def split: sum.splits)
    with phase_trans [OF e p, of 0 11] show ?thesis by (simp add: phase_def)
  qed
  then show "phase 0 11 w w1" "c \<noteq> Continue" by simp_all
qed

lemma while_true_once:
  assumes "\<And>w. fst (body w) \<noteq> Continue"
  shows "while_true body w = Some (body w)"
proof -
  obtain c w' where b: "body w = (c, w')" by fastforce
  with assms [of w] have "c \<noteq> Continue" by simp
  with b show ?thesis by (subst while_true.simps) (cases c; simp)
qed

lemma stage_mono:
  "stage_of e = Some s \<Longrightarrow> stage_of e' = Some s' \<Longrightarrow> op_rank e \<le> op_rank e'
     \<Longrightarrow> position_in_code s \<le> position_in_code s'"
  by (induction e rule: op_rank.induct; induction e' rule: op_rank.induct; auto)

lemma stages_Cons:
  "stages (e # evs) = (case stage_of e of None \<Rightarrow> stages evs | Some s \<Rightarrow> s # stages evs)"
  by (simp add: stages_def split: option.splits)

lemma stages_member:
  "s \<in> set (stages evs) \<Longrightarrow> \<exists>e\<in>set evs. stage_of e = Some s"
  by (induction evs) (auto simp: stages_Cons split: option.splits simp: stages_def)

lemma sorted_stages:
  "sorted (map op_rank evs) \<Longrightarrow> sorted (map position_in_code (stages evs))"
proof (induction evs)
  case Nil
  then show ?case by (simp add: stages_def)
next
  case (Cons e evs)
  then have ih: "sorted (map position_in_code (stages evs))" by simp
  show ?case
  proof (cases "stage_of e")
    case None
    with ih show ?thesis by (simp add: stages_Cons)
  next
    case (Some s)
    have "\<forall>s'\<in>set (stages evs). position_in_code s \<le> position_in_code s'"
    proof
      fix s' assume "s' \<in> set (stages evs)"
      then obtain e' where e': "e' \<in> set evs" "stage_of e' = Some s'"
        using stages_member by blast
      with Cons.prems have "op_rank e \<le> op_rank e'" by auto
      with Some e' show "position_in_code s \<le> position_in_code s'"
        using stage_mono by blast
    qed
    with ih Some show ?thesis by (simp add: stages_Cons)
  qed
qed

subsection \<open>The loop of the \<^verbatim>\<open>add\<close> handler\<close>

lemma sleep1000_fields [simp]:
  "store (sleep1000 w) = store w" "faults (sleep1000 w) = faults w"
  "logged (sleep1000 w) = logged w"
  "files (sleep1000 (logger e w)) = files (sleep1000 w)"
  by (simp_all add: sleep1000_def logger_def split: list.splits)

lemma metadata_json_is_no_jar: "\<not> endsWith ''metadata.json'' ''.jar''"
  by (simp add: endsWith_def suffix_def)

lemma read_attempt_never_continues:
  "fst (read_attempt cfg JSON_parse filepath folder w) \<noteq> Continue"
  by (metis prod.collapse read_attempt_phase(2))

lemma on_add_returns: "\<exists>r. on_add cfg JSON_parse filepath w = Some r"
proof -
  have "while_true (read_attempt cfg JSON_parse filepath (dirname filepath)) (logger (Info MetadataUploaded) w)
          = Some (read_attempt cfg JSON_parse filepath (dirname filepath) (logger (Info MetadataUploaded) w))"
    by (rule while_true_once) (rule read_attempt_never_continues)
  then show ?thesis
    by (auto simp: on_add_def Let_def split: sum.splits bool.splits prod.splits)
qed

lemma sleep1000_ticks: "ticks (sleep1000 w) = tl (ticks w)"
  by (simp add: sleep1000_def split: list.splits)

lemma read_error_ends_the_loop:
  assumes regular: "lstat_isDirectory (files w) filepath = Inr False"
    and descriptor: "basename filepath = ''metadata.json''"
    and err: "readFileSync (files (sleep1000 w)) filepath = Inl e"
  shows "\<exists>w'. on_add cfg JSON_parse filepath w = Some (Aborted, w')
           \<and> store w' = store w
           \<and> ticks w' = tl (ticks w)
           \<and> logged w' = logged w @ [Info MetadataUploaded, Error (ReadingFailed filepath e)]
           \<and> trace w' = trace w @ [EvRead filepath]"
proof -
  let ?folder = "dirname filepath"
  let ?w0 = "logger (Info MetadataUploaded) w"
  let ?w1 = "emit (EvRead filepath) (sleep1000 ?w0)"
  have body: "read_attempt cfg JSON_parse filepath ?folder ?w0
                = (Break, logger (Error (ReadingFailed filepath e)) ?w1)"
    using err by (simp add: read_attempt_def Let_def)
  have "while_true (read_attempt cfg JSON_parse filepath ?folder) ?w0
          = Some (read_attempt cfg JSON_parse filepath ?folder ?w0)"
    by (rule while_true_once) (rule read_attempt_never_continues)
  with body have loop: "while_true (read_attempt cfg JSON_parse filepath ?folder) ?w0
          = Some (Break, logger (Error (ReadingFailed filepath e)) ?w1)"
    by simp
  have "on_add cfg JSON_parse filepath w
          = Some (Aborted, logger (Error (ReadingFailed filepath e)) ?w1)"
    by (simp add: on_add_def Let_def regular descriptor metadata_json_is_no_jar loop)
  moreover have "ticks (sleep1000 ?w0) = tl (ticks w)"
    by (simp add: sleep1000_ticks)
  ultimately show ?thesis by simp
qed

subsection \<open>Creating directories\<close>

lemma is_file_update:
  "is_file (AList.update k Dir fs) p = (p \<noteq> k \<and> is_file fs p)"
  by (auto simp: is_file_def lookup_def update_conv' split: option.splits node.splits)

lemma mkdir_from_ok:
  assumes "\<forall>n. 1 \<le> n \<and> n \<le> length ss \<longrightarrow> \<not> is_file fs (base @ take n ss)"
  shows "\<exists>fs'. mkdir_from fs base ss = Inr fs'
           \<and> (\<forall>n. 1 \<le> n \<and> n \<le> length ss \<longrightarrow> lookup fs' (base @ take n ss) = Some Dir)
           \<and> (\<forall>p. lookup fs p = Some Dir \<longrightarrow> lookup fs' p = Some Dir)"
  using assms
proof (induction ss arbitrary: fs base)
  case Nil
  then show ?case by simp
next
  case (Cons s ss)
  let ?p = "base @ [s]"
  from Cons.prems [rule_format, of 1] have nf: "\<not> is_file fs ?p" by simp
  have shift: "\<And>n. ?p @ take n ss = base @ take (Suc n) (s # ss)" by simp
  show ?case
  proof (cases "lookup fs ?p")
    case None
    let ?fs = "AList.update ?p Dir fs"
    have "\<forall>n. 1 \<le> n \<and> n \<le> length ss \<longrightarrow> \<not> is_file ?fs (?p @ take n ss)"
    proof (intro allI impI)
      fix n assume n: "1 \<le> n \<and> n \<le> length ss"
      with Cons.prems [rule_format, of "Suc n"] have "\<not> is_file fs (?p @ take n ss)" by simp
      then show "\<not> is_file ?fs (?p @ take n ss)" by (simp add: is_file_update)
    qed
    from Cons.IH [OF this] obtain fs' where
      m: "mkdir_from ?fs ?p ss = Inr fs'" and
      d: "\<forall>n. 1 \<le> n \<and> n \<le> length ss \<longrightarrow> lookup fs' (?p @ take n ss) = Some Dir" and
      k: "\<forall>p. lookup ?fs p = Some Dir \<longrightarrow> lookup fs' p = Some Dir"
      by blast
    have p: "lookup fs' ?p = Some Dir" using k by (simp add: lookup_update)
    have "\<forall>n. 1 \<le> n \<and> n \<le> length (s # ss) \<longrightarrow> lookup fs' (base @ take n (s # ss)) = Some Dir"
    proof (intro allI impI)
      fix n assume n: "1 \<le> n \<and> n \<le> length (s # ss)"
      then obtain m where nm: "n = Suc m" by (cases n) auto
      show "lookup fs' (base @ take n (s # ss)) = Some Dir"
      proof (cases m)
        case 0
        with nm p show ?thesis by simp
      next
        case (Suc j)
        with nm n d [rule_format, of m] show ?thesis by simp
      qed
    qed
    moreover have "\<forall>q. lookup fs q = Some Dir \<longrightarrow> lookup fs' q = Some Dir"
      using k by (auto simp: lookup_update)
    ultimately show ?thesis using m None by simp
  next
    case (Some nd)
    with nf have nd: "nd = Dir" by (cases nd) (auto simp: is_file_def)
    have "\<forall>n. 1 \<le> n \<and> n \<le> length ss \<longrightarrow> \<not> is_file fs (?p @ take n ss)"
    proof (intro allI impI)
      fix n assume n: "1 \<le> n \<and> n \<le> length ss"
      with Cons.prems [rule_format, of "Suc n"] show "\<not> is_file fs (?p @ take n ss)" by simp
    qed
    from Cons.IH [OF this] obtain fs' where
      m: "mkdir_from fs ?p ss = Inr fs'" and
      d: "\<forall>n. 1 \<le> n \<and> n \<le> length ss \<longrightarrow> lookup fs' (?p @ take n ss) = Some Dir" and
      k: "\<forall>p. lookup fs p = Some Dir \<longrightarrow> lookup fs' p = Some Dir"
      by blast
    have p: "lookup fs' ?p = Some Dir" using k Some nd by simp
    have "\<forall>n. 1 \<le> n \<and> n \<le> length (s # ss) \<longrightarrow> lookup fs' (base @ take n (s # ss)) = Some Dir"
    proof (intro allI impI)
      fix n assume n: "1 \<le> n \<and> n \<le> length (s # ss)"
      then obtain m where nm: "n = Suc m" by (cases n) auto
      show "lookup fs' (base @ take n (s # ss)) = Some Dir"
      proof (cases m)
        case 0
        with nm p show ?thesis by simp
      next
        case (Suc j)
        with nm n d [rule_format, of m] show ?thesis by simp
      qed
    qed
    with k m Some nd show ?thesis by simp
  qed
qed

lemma prefix_take: "prefix q dp \<Longrightarrow> q = take (length q) dp \<and> length q \<le> length dp"
  by (auto simp: prefix_def)

lemma mkdirSync_ok:
  assumes "list_all (\<lambda>q. \<not> is_file fs q) (prefixes dp)"
  shows "\<exists>fs'. mkdirSync fs dp = Inr fs'
           \<and> (\<forall>q. prefix q dp \<longrightarrow> lookup fs' q = Some Dir)
           \<and> (\<forall>p. lookup fs p = Some Dir \<longrightarrow> lookup fs' p = Some Dir)"
proof -
  from assms have nf: "\<forall>q. prefix q dp \<longrightarrow> \<not> is_file fs q"
    by (simp add: list_all_iff)
  have "\<forall>n. 1 \<le> n \<and> n \<le> length dp \<longrightarrow> \<not> is_file fs ([] @ take n dp)"
    using nf by (simp add: take_is_prefix)
  from mkdir_from_ok [OF this] obtain fs' where
    m: "mkdir_from fs [] dp = Inr fs'" and
    d: "\<forall>n. 1 \<le> n \<and> n \<le> length dp \<longrightarrow> lookup fs' (take n dp) = Some Dir" and
    k: "\<forall>p. lookup fs p = Some Dir \<longrightarrow> lookup fs' p = Some Dir"
    by auto
  have "\<forall>q. prefix q dp \<longrightarrow> lookup fs' q = Some Dir"
  proof (intro allI impI)
    fix q assume q: "prefix q dp"
    show "lookup fs' q = Some Dir"
    proof (cases "q = []")
      case True
      then show ?thesis by (simp add: lookup_def)
    next
      case False
      with prefix_take [OF q] d [rule_format, of "length q"] show ?thesis
        by (cases q) auto
    qed
  qed
  with m k show ?thesis by (simp add: mkdirSync_def)
qed

lemma copy_loop_keeps_dirs:
  "copy_loop folder dp ds w = (r, w1) \<Longrightarrow> lookup (files w) p = Some Dir
     \<Longrightarrow> lookup (files w1) p = Some Dir"
proof (induction ds arbitrary: w)
  case Nil
  then show ?case by simp
next
  case (Cons kd ds)
  let ?src = "path_join folder (name (snd kd))"
  let ?dst = "path_join dp (name (snd kd))"
  show ?case
  proof (cases "copyFileSync (files w) ?src ?dst")
    case (Inl e)
    with Cons.prems show ?thesis by (auto simp: Let_def)
  next
    case (Inr fs')
    with Cons.prems have "copy_loop folder dp ds (emit (EvCopy ?src ?dst) w\<lparr>files := fs'\<rparr>) = (r, w1)"
      by (simp add: Let_def)
    moreover have "lookup (files (emit (EvCopy ?src ?dst) w\<lparr>files := fs'\<rparr>)) p = Some Dir"
      using copyFileSync_Inr(5) [OF Inr] Cons.prems(2) by simp
    ultimately show ?thesis by (rule Cons.IH)
  qed
qed

subsection \<open>Removing files\<close>

lemma path_join_valid_name:
  assumes "valid_name s"
  shows "path_join p s = p @ [s]"
proof -
  from assms have "CHR ''/'' \<notin> set s" by (simp add: valid_name_def)
  then have "split_chr CHR ''/'' s = [s]" by (rule split_chr_no_sep)
  with assms show ?thesis by (simp add: path_join_def path_step_def valid_name_def)
qed

lemma map_of_filter_fst:
  "map_of (filter (\<lambda>e. P (fst e)) fs) k = (if P k then map_of fs k else None)"
  by (induction fs) auto

lemma lookup_rmSync_rf:
  "folder \<noteq> [] \<Longrightarrow> lookup (rmSync_rf fs folder) p = (if prefix folder p then None else lookup fs p)"
  using map_of_filter_fst [of "\<lambda>k. \<not> prefix folder k" fs p]
  by (auto simp: lookup_def rmSync_rf_def)

lemma lookup_root: "lookup fs [] = Some Dir"
  by (simp add: lookup_def)

lemma is_file_delete:
  "is_file (AList.delete q fs) p = (p \<noteq> q \<and> is_file fs p)"
  by (auto simp: is_file_def lookup_def delete_conv' split: option.splits node.splits)

lemma rmSync_file:
  "is_file fs q \<Longrightarrow> rmSync fs q = Inr (AList.delete q fs)"
  by (auto simp: rmSync_def is_file_def split: option.splits node.splits)

lemma rm_each_children:
  assumes "distinct qs"
    and "\<forall>q\<in>set qs. q \<noteq> [] \<and> butlast q = folder \<and> valid_name (last q)"
  shows "\<exists>w'. rm_each folder (map (\<lambda>q. (last q, is_file (files w) q)) qs) w = (Inr (), w')
           \<and> (\<forall>p. lookup (files w') p
                  = (if p \<in> set qs \<and> is_file (files w) p then None else lookup (files w) p))"
  using assms
proof (induction qs arbitrary: w)
  case Nil
  then show ?case by simp
next
  case (Cons q qs)
  from Cons.prems have q: "q \<noteq> []" "butlast q = folder" "valid_name (last q)" by simp_all
  then have pj: "path_join folder (last q) = q"
    using path_join_valid_name [of "last q" folder] append_butlast_last_id [of q] by simp
  from Cons.prems have dq: "distinct qs" "q \<notin> set qs"
    and rest: "\<forall>q\<in>set qs. q \<noteq> [] \<and> butlast q = folder \<and> valid_name (last q)"
    by simp_all
  show ?case
  proof (cases "is_file (files w) q")
    case False
    from Cons.IH [OF dq(1) rest, of w] obtain w' where
      r: "rm_each folder (map (\<lambda>q. (last q, is_file (files w) q)) qs) w = (Inr (), w')" and
      l: "\<forall>p. lookup (files w') p
               = (if p \<in> set qs \<and> is_file (files w) p then None else lookup (files w) p)"
      by blast
    from r False have "rm_each folder (map (\<lambda>q. (last q, is_file (files w) q)) (q # qs)) w = (Inr (), w')"
      by simp
    moreover from l False have "\<forall>p. lookup (files w') p
               = (if p \<in> set (q # qs) \<and> is_file (files w) p then None else lookup (files w) p)"
      by auto
    ultimately show ?thesis by blast
  next
    case True
    let ?w2 = "emit (EvRm q) w\<lparr>files := AList.delete q (files w)\<rparr>"
    have same: "map (\<lambda>q'. (last q', is_file (files w) q')) qs
                  = map (\<lambda>q'. (last q', is_file (files ?w2) q')) qs"
      using dq(2) by (auto simp: is_file_delete)
    from Cons.IH [OF dq(1) rest, of ?w2] obtain w' where
      r: "rm_each folder (map (\<lambda>q. (last q, is_file (files ?w2) q)) qs) ?w2 = (Inr (), w')" and
      l: "\<forall>p. lookup (files w') p
               = (if p \<in> set qs \<and> is_file (files ?w2) p then None else lookup (files ?w2) p)"
      by blast
    have "rm_each folder (map (\<lambda>q. (last q, is_file (files w) q)) (q # qs)) w = (Inr (), w')"
      using True r by (simp add: pj Let_def rmSync_file same)
    moreover have "\<forall>p. lookup (files w') p
               = (if p \<in> set (q # qs) \<and> is_file (files w) p then None else lookup (files w) p)"
    proof
      fix p
      show "lookup (files w') p
               = (if p \<in> set (q # qs) \<and> is_file (files w) p then None else lookup (files w) p)"
        using l [rule_format, of p] True q(1) dq(2)
        by (auto simp: is_file_delete lookup_delete lookup_root)
    qed
    ultimately show ?thesis by blast
  qed
qed

lemma children_props:
  assumes "wf_fs fs"
  shows "distinct (children fs folder)"
    "\<forall>q\<in>set (children fs folder). q \<noteq> [] \<and> butlast q = folder \<and> valid_name (last q)"
    "\<And>p. p \<noteq> [] \<Longrightarrow> butlast p = folder \<Longrightarrow> is_file fs p \<Longrightarrow> p \<in> set (children fs folder)"
proof -
  show "distinct (children fs folder)" by (simp add: children_def)
  show "\<forall>q\<in>set (children fs folder). q \<noteq> [] \<and> butlast q = folder \<and> valid_name (last q)"
  proof
    fix q assume "q \<in> set (children fs folder)"
    then have q: "q \<noteq> []" "butlast q = folder" "q \<in> fst ` set fs"
      by (auto simp: children_def)
    with assms have "list_all valid_name q" by (auto simp: wf_fs_def list_all_iff)
    with q(1) have "valid_name (last q)" by (simp add: list_all_iff)
    with q show "q \<noteq> [] \<and> butlast q = folder \<and> valid_name (last q)" by simp
  qed
  fix p assume p: "p \<noteq> []" "butlast p = folder" "is_file fs p"
  then have "map_of fs p \<noteq> None"
    by (auto simp: is_file_def lookup_def split: option.splits)
  then have "p \<in> fst ` set fs" by (force dest: map_of_SomeD)
  with p show "p \<in> set (children fs folder)" by (simp add: children_def)
qed

section \<open>The version-group key\<close>

text \<open>
  Claim C7. The dot-separated components of a version string \<open>v\<close> are the non-empty list
  of dot-free strings whose join with dots is \<open>v\<close>; \<^const>\<open>split_chr\<close> computes them, so
  every string has them. Whatever they are, the version-group key computed on line 147
  is the join of the first two of them, and a version with fewer than two components
  is its own key.
\<close>

theorem majorVersion_first_two_components:
  "(split_chr CHR ''.'' v \<noteq> [] \<and> (\<forall>c\<in>set (split_chr CHR ''.'' v). CHR ''.'' \<notin> set c)
      \<and> join_str ''.'' (split_chr CHR ''.'' v) = v)
   \<and> (\<forall>cs. cs \<noteq> [] \<and> (\<forall>c\<in>set cs. CHR ''.'' \<notin> set c) \<and> join_str ''.'' cs = v
         \<longrightarrow> majorVersion v = join_str ''.'' (take 2 cs)
             \<and> (length cs < 2 \<longrightarrow> majorVersion v = v))"
proof (intro conjI allI impI)
  show "split_chr CHR ''.'' v \<noteq> []" by (rule split_chr_nonempty)
  show "\<forall>c\<in>set (split_chr CHR ''.'' v). CHR ''.'' \<notin> set c"
    using split_chr_pieces by blast
  show "join_str ''.'' (split_chr CHR ''.'' v) = v" by (rule join_split_chr)
next
  fix cs
  assume h: "cs \<noteq> [] \<and> (\<forall>c\<in>set cs. CHR ''.'' \<notin> set c) \<and> join_str ''.'' cs = v"
  then have sp: "split_chr CHR ''.'' v = cs"
    using split_chr_join [of cs "CHR ''.''"] by auto
  then show mv: "majorVersion v = join_str ''.'' (take 2 cs)"
    by (simp add: majorVersion_def slice0_def)
  assume "length cs < 2"
  then have "take 2 cs = cs" by simp
  with mv h show "majorVersion v = v" by simp
qed

theorem majorVersion_first_two_components_witness:
  "majorVersion ''1.19.4'' = ''1.19'' \<and> majorVersion ''1'' = ''1''"
proof -
  have a: "majorVersion ''1.19.4'' = join_str ''.'' (take 2 [''1'', ''19'', ''4''])"
    using majorVersion_first_two_components [of "''1.19.4''", THEN conjunct2, THEN spec,
        of "[''1'', ''19'', ''4'']"]
    by simp
  have b: "majorVersion ''1'' = ''1''"
    using majorVersion_first_two_components [of "''1''", THEN conjunct2, THEN spec, of "[''1'']"]
    by simp
  from a b show ?thesis by simp
qed

section \<open>Order of the stages\<close>

text \<open>
  Claim C2, as amended. In every run of the \<^verbatim>\<open>add\<close> handler the operations occur in the
  order of the program text: the read of the descriptor, the directory check and the
  copies, then the store calls (project, version group, version, build), then the
  cleaning. So the stages run in the order reader, relocator, resolver, recorder,
  cleaner: the files are copied before the hierarchy is resolved, not after.
\<close>

theorem stages_run_in_code_order:
  assumes "on_add cfg JSON_parse filepath w = Some (out, w')"
  shows "\<exists>evs. trace w' = trace w @ evs
           \<and> sorted (map op_rank evs)
           \<and> sorted (map position_in_code (stages evs))"
proof -
  let ?body = "read_attempt cfg JSON_parse filepath (dirname filepath)"
  let ?w0 = "logger (Info MetadataUploaded) w"
  have once: "while_true ?body ?w0 = Some (?body ?w0)"
    by (rule while_true_once) (metis prod.collapse read_attempt_phase(2))
  have "phase 0 11 w w'"
  proof (cases "\<exists>c. on_add cfg JSON_parse filepath w = Some (if c = Return then Ingested else Aborted, snd (?body ?w0))")
    case True
    with assms have "w' = snd (?body ?w0)" by auto
    moreover have "phase 0 11 ?w0 (snd (?body ?w0))"
      by (metis prod.collapse read_attempt_phase(1))
    ultimately show ?thesis by simp
  next
    case False
    with assms once have "trace w' = trace w"
      by (auto simp: on_add_def Let_def split: sum.splits bool.splits if_splits prod.splits)
    then show ?thesis by (simp add: phase_def)
  qed
  then obtain evs where "trace w' = trace w @ evs" "sorted (map op_rank evs)"
    by (auto simp: phase_def)
  with sorted_stages show ?thesis by blast
qed

theorem stages_run_in_code_order_witness:
  "\<exists>w' evs. on_add cfg_ex parse_ex filepath_ex w_ex = Some (Ingested, w')
      \<and> trace w' = trace w_ex @ evs
      \<and> sorted (map op_rank evs)
      \<and> sorted (map position_in_code (stages evs))"
proof -
  have "fst (the (on_add cfg_ex parse_ex filepath_ex w_ex)) = Ingested
        \<and> on_add cfg_ex parse_ex filepath_ex w_ex \<noteq> None"
    by code_simp
  then obtain w' where o: "on_add cfg_ex parse_ex filepath_ex w_ex = Some (Ingested, w')"
    by (cases "on_add cfg_ex parse_ex filepath_ex w_ex") auto
  from stages_run_in_code_order [OF o] o show ?thesis by blast
qed

text \<open>
  Claim C2 as stated fails on the sample upload: its stages are not in the order
  reader, resolver, relocator, recorder, cleaner, because the three relocator operations
  precede the three resolver operations.
\<close>

theorem copies_precede_resolution_counterexample:
  "map_option (\<lambda>r. stages (trace (snd r))) (on_add cfg_ex parse_ex filepath_ex w_ex)
     = Some [Reader, Relocator, Relocator, Relocator, Resolver, Resolver, Resolver, Recorder, Cleaner]
   \<and> \<not> sorted (map position_in_spec
         [Reader, Relocator, Relocator, Relocator, Resolver, Resolver, Resolver, Recorder, Cleaner])"
  by code_simp

section \<open>When the staging cleaner runs\<close>

text \<open>
  Claim C1, as amended. The cleaner runs whenever \<^verbatim>\<open>insert\<close> returns, whether or not a
  build was inserted, and its first operation directly follows the last operation of
  \<^verbatim>\<open>insert\<close>. When a copy throws, \<^verbatim>\<open>insert\<close> returns with the store unchanged; when the
  hierarchy resolution or the build insert fails and the connection closes, \<^verbatim>\<open>insert\<close>
  returns with the builds unchanged: in both cases the cleaner runs. When \<^verbatim>\<open>insert\<close>
  throws, \<^verbatim>\<open>handleMetadata\<close> throws the same exception and nothing is cleaned.
\<close>

theorem cleaner_runs_whenever_insert_returns:
  assumes "insert_metadata cfg md folder (log_summary md w) = (r, w1)"
  shows "(r = Inr () \<longrightarrow>
           (\<exists>x w' evs. handleMetadata cfg folder md w = (x, w')
              \<and> trace w' = trace w1 @ clean_start cfg folder # evs))
       \<and> (\<forall>e. r = Inl e \<longrightarrow>
             handleMetadata cfg folder md w = (Inl e, w1))
       \<and> (\<forall>e wa wb.
             ensure_dir (downloadsPath cfg md) (log_summary md w) = (Inr (), wa)
             \<and> copy_loop folder (downloadsPath cfg md) (downloads md) wa = (Inl e, wb) \<longrightarrow>
             r = Inr () \<and> store w1 = store w)
       \<and> (\<forall>e wa wb wc.
             ensure_dir (downloadsPath cfg md) (log_summary md w) = (Inr (), wa)
             \<and> copy_loop folder (downloadsPath cfg md) (downloads md) wa = (Inr (), wb)
             \<and> store_try md wb = (Inl e, wc)
             \<and> fst (client_close (logger (Error (Caught e)) wc)) = Inr () \<longrightarrow>
             r = Inr () \<and> builds (store w1) = builds (store w))"
proof (intro conjI allI impI)
  assume r: "r = Inr ()"
  let ?w = "logger (Info (CleaningUp folder)) w1"
  have h: "handleMetadata cfg folder md w = staging_clean cfg folder ?w"
    by (simp add: handleMetadata_def assms r)
  show "\<exists>x w' evs. handleMetadata cfg folder md w = (x, w')
              \<and> trace w' = trace w1 @ clean_start cfg folder # evs"
  proof (cases "folder = uploadFolder cfg")
    case False
    then show ?thesis
      by (simp add: h staging_clean_def clean_start_def Let_def)
  next
    case True
    obtain x w' where s: "staging_clean cfg folder ?w = (x, w')" by fastforce
    have "\<exists>evs. trace w' = trace w1 @ EvReaddir folder # evs"
    proof (cases "readdirSync (files w1) folder")
      case (Inl e)
      with s True show ?thesis by (auto simp: staging_clean_def Let_def)
    next
      case (Inr ents)
      with s True have "rm_each folder ents (emit (EvReaddir folder) ?w) = (x, w')"
        by (simp add: staging_clean_def Let_def)
      moreover have "\<And>wa. rm_each folder ents wa = (x, w') \<Longrightarrow> \<exists>evs. trace w' = trace wa @ evs"
      proof (induction ents)
        case Nil
        then show ?case by simp
      next
        case (Cons f fs)
        then show ?case
          by (fastforce simp: Let_def split: if_splits sum.splits)
      qed
      ultimately show ?thesis by fastforce
    qed
    moreover have "clean_start cfg folder = EvReaddir folder"
      using True by (simp add: clean_start_def)
    ultimately show ?thesis unfolding h s by auto
  qed
next
  fix e assume r: "r = Inl e"
  show "handleMetadata cfg folder md w = (Inl e, w1)"
    by (simp add: handleMetadata_def assms r)
next
  fix e wa wb
  assume a: "ensure_dir (downloadsPath cfg md) (log_summary md w) = (Inr (), wa)
             \<and> copy_loop folder (downloadsPath cfg md) (downloads md) wa = (Inl e, wb)"
  then have d: "ensure_dir (downloadsPath cfg md) (log_summary md w) = (Inr (), wa)"
    and c: "copy_loop folder (downloadsPath cfg md) (downloads md) wa = (Inl e, wb)"
    by blast+
  from assms have "r = Inr ()" "w1 = logger (Error (Caught e)) wb"
    by (simp_all add: insert_metadata_def d c)
  moreover have "store wb = store w"
    using ensure_dir_frame(1) [OF d] copy_loop_frame [OF c] by (simp add: log_summary_def)
  ultimately show "r = Inr ()" "store w1 = store w" by simp_all
next
  fix e wa wb wc
  assume a: "ensure_dir (downloadsPath cfg md) (log_summary md w) = (Inr (), wa)
             \<and> copy_loop folder (downloadsPath cfg md) (downloads md) wa = (Inr (), wb)
             \<and> store_try md wb = (Inl e, wc)
             \<and> fst (client_close (logger (Error (Caught e)) wc)) = Inr ()"
  then have d: "ensure_dir (downloadsPath cfg md) (log_summary md w) = (Inr (), wa)"
    and c: "copy_loop folder (downloadsPath cfg md) (downloads md) wa = (Inr (), wb)"
    and t: "store_try md wb = (Inl e, wc)"
    and cl: "fst (client_close (logger (Error (Caught e)) wc)) = Inr ()"
    by blast+
  from assms have i: "client_close (logger (Error (Caught e)) wc) = (r, w1)"
    by (simp add: insert_metadata_def d c store_phase_def t)
  with cl show "r = Inr ()" by simp
  have "builds (store wc) = builds (store wb)" by (rule store_try_Inl(1) [OF t])
  moreover have "store wb = store w"
    using ensure_dir_frame(1) [OF d] copy_loop_frame [OF c] by (simp add: log_summary_def)
  moreover have "store w1 = store wc"
    using client_close_frame(2) [OF i] by simp
  ultimately show "builds (store w1) = builds (store w)" by simp
qed

theorem cleaner_runs_whenever_insert_returns_witness:
  "fst (insert_metadata cfg_ex md_missing folder_ex (log_summary md_missing w_ex)) = Inr ()
   \<and> builds (store (snd (insert_metadata cfg_ex md_missing folder_ex (log_summary md_missing w_ex)))) = []
   \<and> (\<exists>x w' evs. handleMetadata cfg_ex folder_ex md_missing w_ex = (x, w')
          \<and> trace w' = trace (snd (insert_metadata cfg_ex md_missing folder_ex
                                     (log_summary md_missing w_ex)))
                        @ EvRmRecursive folder_ex # evs)"
proof -
  let ?i = "insert_metadata cfg_ex md_missing folder_ex (log_summary md_missing w_ex)"
  have a: "?i = (fst ?i, snd ?i)" by simp
  have r: "fst ?i = Inr ()" by code_simp
  have b: "builds (store (snd ?i)) = []" by code_simp
  have c: "clean_start cfg_ex folder_ex = EvRmRecursive folder_ex" by code_simp
  from cleaner_runs_whenever_insert_returns [OF a, THEN conjunct1] r c
  have "\<exists>x w' evs. handleMetadata cfg_ex folder_ex md_missing w_ex = (x, w')
          \<and> trace w' = trace (snd ?i) @ EvRmRecursive folder_ex # evs"
    by simp
  with r b show ?thesis by blast
qed

text \<open>
  Claim C1 as stated fails on the sample upload with the missing download: relocation
  fails, no build is inserted, and the staging directory with the uploaded artifact is
  removed all the same.
\<close>

theorem cleanup_after_failed_relocation_counterexample:
  "lookup (files w_ex) [''uploads'', ''b1'', ''paper-50.jar''] = Some (File ''JAR'')
   \<and> fst (handleMetadata cfg_ex folder_ex md_missing w_ex) = Inr ()
   \<and> builds (store (snd (handleMetadata cfg_ex folder_ex md_missing w_ex))) = []
   \<and> last (logged (snd (handleMetadata cfg_ex folder_ex md_missing w_ex)))
       = Info (CleaningUp folder_ex)
   \<and> last (trace (snd (handleMetadata cfg_ex folder_ex md_missing w_ex))) = EvRmRecursive folder_ex
   \<and> lookup (files (snd (handleMetadata cfg_ex folder_ex md_missing w_ex))) folder_ex = None
   \<and> lookup (files (snd (handleMetadata cfg_ex folder_ex md_missing w_ex)))
        [''uploads'', ''b1'', ''paper-50.jar''] = None"
  by code_simp

section \<open>Re-ingesting a descriptor\<close>

text \<open>
  Claim C4. Let a first ingestion of a descriptor have inserted its build. When
  \<^verbatim>\<open>insert\<close> runs again for the same descriptor on the store as the first run left it,
  with a store that answers and a relocation that succeeds, the projects, version groups
  and versions are the same lists of documents as before, and the builds are the former
  ones followed by one new document with the project, version and number of the first
  build and a different \<^verbatim>\<open>_id\<close>.
\<close>

theorem reingest_adds_only_a_build:
  assumes first: "insert_metadata cfg md folder0 w0 = (r1, w1)"
    and inserted: "builds (store w1) \<noteq> builds (store w0)"
    and same_store: "store w = store w1"
    and no_faults: "faults w = []"
    and dir: "fst (ensure_dir (downloadsPath cfg md) w) = Inr ()"
    and copies: "fst (copy_loop folder (downloadsPath cfg md) (downloads md)
                       (snd (ensure_dir (downloadsPath cfg md) w))) = Inr ()"
  shows "\<exists>w2 b. insert_metadata cfg md folder w = (Inr (), w2)
           \<and> projects (store w2) = projects (store w1)
           \<and> version_groups (store w2) = version_groups (store w1)
           \<and> versions (store w2) = versions (store w1)
           \<and> builds (store w2) = builds (store w1) @ [b]
           \<and> b_project b = b_project (last (builds (store w1)))
           \<and> b_version b = b_version (last (builds (store w1)))
           \<and> b_number b = b_number (last (builds (store w1)))
           \<and> b_number b = number md
           \<and> b_id b \<noteq> b_id (last (builds (store w1)))"
proof -
  let ?dp = "downloadsPath cfg md"
  from first obtain wa wb where
    st: "store_phase md wb = (r1, w1)" and sb: "store wb = store w0"
  proof (cases rule: insert_metadata_cases)
    case (mkdir_threw e)
    with ensure_dir_frame(1) [OF mkdir_threw(1)] inserted show ?thesis by simp
  next
    case (copy_threw wa wb e)
    with ensure_dir_frame(1) [OF copy_threw(1)] copy_loop_frame [OF copy_threw(2)] inserted
    show ?thesis by simp
  next
    case (stored wa wb)
    with ensure_dir_frame(1) [OF stored(1)] copy_loop_frame [OF stored(2)] that
    show ?thesis by simp
  qed
  from store_phase_builds [OF st] inserted sb obtain wc where
    t: "store_try md wb = (Inr (), wc)" and sc: "store w1 = store wc"
    by auto
  from store_try_Inr(1) [OF t] sc obtain p g v b1 where
    res: "resolution md (store w1) = Some (p, g, v)" and
    b1: "builds (store w1) = builds (store wb) @ [b1]" "b_project b1 = p_id p"
      "b_version b1 = v_id v" "b_number b1 = number md" "next_id (store w1) = Suc (b_id b1)"
    by auto
  obtain x1 where d: "ensure_dir ?dp w = (Inr (), x1)"
    using dir by (metis prod.collapse)
  obtain x2 where c: "copy_loop folder ?dp (downloads md) x1 = (Inr (), x2)"
    using copies d by (metis (full_types) old.unit.exhaust prod.collapse snd_conv)
  have sx: "store x2 = store w1" "faults x2 = []"
    using ensure_dir_frame [OF d] copy_loop_frame [OF c] same_store no_faults by simp_all
  from store_try_resolved [of md x2 p g v] res sx obtain x3 b where
    t2: "store_try md x2 = (Inr (), x3)" and
    keep: "projects (store x3) = projects (store w1)"
      "version_groups (store x3) = version_groups (store w1)"
      "versions (store x3) = versions (store w1)" and
    b: "builds (store x3) = builds (store w1) @ [b]" "b_id b = next_id (store w1)"
      "b_project b = p_id p" "b_version b = v_id v" "b_number b = number md"
    by auto
  have f3: "faults x3 = []"
    using t2 sx(2)
    by (auto simp: store_try_def client_connect_def upsert_project_def upsert_version_group_def
        upsert_version_def insertOne_build_def take_fault_def Let_def
        split: prod.splits sum.splits option.splits if_splits)
  have cl: "client_close x3 = (Inr (), emit EvClose x3)"
    by (simp add: client_close_def take_fault_def f3)
  have ins: "insert_metadata cfg md folder w = (Inr (), emit EvClose x3)"
    by (simp add: insert_metadata_def d c store_phase_def t2 cl)
  from ins keep b b1 show ?thesis by simp
qed

theorem reingest_adds_only_a_build_witness:
  "builds (store (snd (insert_metadata cfg_ex md_ex folder_ex w_ex))) \<noteq> builds (store w_ex)
   \<and> (\<exists>w2 b. insert_metadata cfg_ex md_ex folder_ex (snd (insert_metadata cfg_ex md_ex folder_ex w_ex))
                 = (Inr (), w2)
          \<and> projects (store w2) = projects (store (snd (insert_metadata cfg_ex md_ex folder_ex w_ex)))
          \<and> version_groups (store w2)
              = version_groups (store (snd (insert_metadata cfg_ex md_ex folder_ex w_ex)))
          \<and> versions (store w2) = versions (store (snd (insert_metadata cfg_ex md_ex folder_ex w_ex)))
          \<and> builds (store w2)
              = builds (store (snd (insert_metadata cfg_ex md_ex folder_ex w_ex))) @ [b]
          \<and> b_number b = 50)"
proof -
  let ?dp = "downloadsPath cfg_ex md_ex"
  let ?w1 = "snd (insert_metadata cfg_ex md_ex folder_ex w_ex)"
  have first: "insert_metadata cfg_ex md_ex folder_ex w_ex
                 = (fst (insert_metadata cfg_ex md_ex folder_ex w_ex), ?w1)"
    by simp
  have inserted: "builds (store ?w1) \<noteq> builds (store w_ex)" by code_simp
  have nf: "faults ?w1 = []" by code_simp
  have dir: "fst (ensure_dir ?dp ?w1) = Inr ()" by code_simp
  have copies: "fst (copy_loop folder_ex ?dp (downloads md_ex) (snd (ensure_dir ?dp ?w1))) = Inr ()"
    by code_simp
  have n: "number md_ex = 50" by (simp add: md_ex_def)
  from reingest_adds_only_a_build [OF first inserted refl nf dir copies] n
  have "\<exists>w2 b. insert_metadata cfg_ex md_ex folder_ex ?w1 = (Inr (), w2)
          \<and> projects (store w2) = projects (store ?w1)
          \<and> version_groups (store w2) = version_groups (store ?w1)
          \<and> versions (store w2) = versions (store ?w1)
          \<and> builds (store w2) = builds (store ?w1) @ [b]
          \<and> b_number b = 50"
    by auto
  with inserted show ?thesis by blast
qed

section \<open>A download that is missing from the staging directory\<close>

text \<open>
  Claim C5. Let the downloads be \<open>pre @ kd # post\<close>, let the copies of \<open>pre\<close> succeed and
  let the source of \<open>kd\<close> be absent when its copy is attempted. Then \<^verbatim>\<open>insert\<close> returns
  after that one failed attempt: the file system is as the copies of \<open>pre\<close> left it,
  every destination of \<open>pre\<close> is a regular file, nothing of \<open>post\<close> is attempted, the
  error is logged and the store, hence the builds collection, is unchanged.
\<close>

theorem missing_download_aborts_relocation:
  assumes dir: "fst (ensure_dir (downloadsPath cfg md) w) = Inr ()"
    and dl: "downloads md = pre @ kd # post"
    and pre: "copy_loop folder (downloadsPath cfg md) pre (snd (ensure_dir (downloadsPath cfg md) w))
                = (Inr (), w2)"
    and absent: "lookup (files w2) (path_join folder (name (snd kd))) = None"
  shows "\<exists>w'. insert_metadata cfg md folder w = (Inr (), w')
           \<and> files w' = files w2
           \<and> (\<forall>kd'\<in>set pre. is_file (files w') (path_join (downloadsPath cfg md) (name (snd kd'))))
           \<and> trace w' = trace w2 @ [EvCopy (path_join folder (name (snd kd)))
                                         (path_join (downloadsPath cfg md) (name (snd kd)))]
           \<and> logged w' = logged w @ [Error (Caught (ENOENT (path_join folder (name (snd kd)))))]
           \<and> store w' = store w"
proof -
  let ?dp = "downloadsPath cfg md"
  let ?src = "path_join folder (name (snd kd))"
  let ?dst = "path_join ?dp (name (snd kd))"
  obtain w1 where d: "ensure_dir ?dp w = (Inr (), w1)"
    using dir by (metis prod.collapse)
  from pre d have p: "copy_loop folder ?dp pre w1 = (Inr (), w2)" by simp
  have step: "copy_loop folder ?dp (kd # post) w2 = (Inl (ENOENT ?src), emit (EvCopy ?src ?dst) w2)"
    using absent by (simp add: Let_def copyFileSync_absent)
  have c: "copy_loop folder ?dp (downloads md) w1 = (Inl (ENOENT ?src), emit (EvCopy ?src ?dst) w2)"
    by (simp add: dl copy_loop_append p step del: copy_loop.simps)
  have ins: "insert_metadata cfg md folder w
               = (Inr (), logger (Error (Caught (ENOENT ?src))) (emit (EvCopy ?src ?dst) w2))"
    by (simp add: insert_metadata_def d c)
  from ensure_dir_frame [OF d] copy_loop_frame [OF p]
  have fr: "store w2 = store w" "logged w2 = logged w" by simp_all
  from copy_loop_files [OF p]
  have "\<forall>kd'\<in>set pre. is_file (files w2) (path_join ?dp (name (snd kd')))" by blast
  with ins fr show ?thesis by simp
qed

theorem missing_download_aborts_relocation_witness:
  "fst (ensure_dir (downloadsPath cfg_ex md_missing) w_ex) = Inr ()
   \<and> lookup (files (snd (copy_loop folder_ex (downloadsPath cfg_ex md_missing)
                          [(''server'', \<lparr>name = ''paper-50.jar'', sha256 = ''abc''\<rparr>)]
                          (snd (ensure_dir (downloadsPath cfg_ex md_missing) w_ex)))))
        [''uploads'', ''b1'', ''paper-50-sources.jar''] = None
   \<and> (\<exists>w'. insert_metadata cfg_ex md_missing folder_ex w_ex = (Inr (), w')
          \<and> is_file (files w') [''storage'', ''paper'', ''1.19.4'', ''50'', ''paper-50.jar'']
          \<and> logged w' = [Error (Caught (ENOENT [''uploads'', ''b1'', ''paper-50-sources.jar'']))]
          \<and> store w' = empty_store)"
proof -
  let ?dp = "downloadsPath cfg_ex md_missing"
  let ?a = "(''server'', \<lparr>name = ''paper-50.jar'', sha256 = ''abc''\<rparr>)"
  let ?b = "(''sources'', \<lparr>name = ''paper-50-sources.jar'', sha256 = ''def''\<rparr>)"
  let ?w2 = "snd (copy_loop folder_ex ?dp [?a] (snd (ensure_dir ?dp w_ex)))"
  have h1: "fst (ensure_dir ?dp w_ex) = Inr ()" by code_simp
  have h2: "downloads md_missing = [?a] @ ?b # []" by code_simp
  have "fst (copy_loop folder_ex ?dp [?a] (snd (ensure_dir ?dp w_ex))) = Inr ()" by code_simp
  then have h3: "copy_loop folder_ex ?dp [?a] (snd (ensure_dir ?dp w_ex)) = (Inr (), ?w2)"
    by (simp add: prod_eq_iff)
  have h4: "lookup (files ?w2) (path_join folder_ex (name (snd ?b))) = None" by code_simp
  have h4': "lookup (files ?w2) [''uploads'', ''b1'', ''paper-50-sources.jar''] = None" by code_simp
  have p1: "path_join ?dp ''paper-50.jar'' = [''storage'', ''paper'', ''1.19.4'', ''50'', ''paper-50.jar'']"
    by code_simp
  have p2: "path_join folder_ex ''paper-50-sources.jar'' = [''uploads'', ''b1'', ''paper-50-sources.jar'']"
    by code_simp
  have l: "logged w_ex = []" "store w_ex = empty_store" by (simp_all add: w_ex_def)
  from missing_download_aborts_relocation [OF h1 h2 h3 h4]
  have "\<exists>w'. insert_metadata cfg_ex md_missing folder_ex w_ex = (Inr (), w')
          \<and> is_file (files w') [''storage'', ''paper'', ''1.19.4'', ''50'', ''paper-50.jar'']
          \<and> logged w' = [Error (Caught (ENOENT [''uploads'', ''b1'', ''paper-50-sources.jar'']))]
          \<and> store w' = empty_store"
    by (auto simp: p1 p2 l)
  with h1 h4' show ?thesis by blast
qed

text \<open>
  Claim C9. When a copy throws, \<^verbatim>\<open>insert\<close> returns with the store unchanged and without
  a single call to the store driver: no connection is opened, no fault of the store is
  consumed, and the error is logged.
\<close>

theorem failed_copy_touches_no_store:
  assumes dir: "fst (ensure_dir (downloadsPath cfg md) w) = Inr ()"
    and fail: "fst (copy_loop folder (downloadsPath cfg md) (downloads md)
                     (snd (ensure_dir (downloadsPath cfg md) w))) = Inl e"
  shows "\<exists>w'. insert_metadata cfg md folder w = (Inr (), w')
           \<and> store w' = store w
           \<and> faults w' = faults w
           \<and> filter is_store_event (trace w') = filter is_store_event (trace w)
           \<and> logged w' = logged w @ [Error (Caught e)]"
proof -
  let ?dp = "downloadsPath cfg md"
  obtain w1 where d: "ensure_dir ?dp w = (Inr (), w1)"
    using dir by (metis prod.collapse)
  obtain w2 where c: "copy_loop folder ?dp (downloads md) w1 = (Inl e, w2)"
    using fail d by (metis prod.collapse snd_conv)
  have ins: "insert_metadata cfg md folder w = (Inr (), logger (Error (Caught e)) w2)"
    by (simp add: insert_metadata_def d c)
  have "filter is_store_event (trace w1) = filter is_store_event (trace w)"
    using ensure_dir_frame(6) [OF d] by auto
  moreover have "filter is_store_event (trace w2) = filter is_store_event (trace w1)"
    by (rule copy_loop_Inl_frame [OF c])
  ultimately have tr: "filter is_store_event (trace w2) = filter is_store_event (trace w)"
    by simp
  from ensure_dir_frame [OF d] copy_loop_frame [OF c]
  have "store w2 = store w" "faults w2 = faults w" "logged w2 = logged w" by simp_all
  with ins tr show ?thesis by simp
qed

theorem failed_copy_touches_no_store_witness:
  "fst (ensure_dir (downloadsPath cfg_ex md_missing) w_ex) = Inr ()
   \<and> fst (copy_loop folder_ex (downloadsPath cfg_ex md_missing) (downloads md_missing)
            (snd (ensure_dir (downloadsPath cfg_ex md_missing) w_ex)))
       = Inl (ENOENT [''uploads'', ''b1'', ''paper-50-sources.jar''])
   \<and> (\<exists>w'. insert_metadata cfg_ex md_missing folder_ex w_ex = (Inr (), w')
           \<and> store w' = store w_ex
           \<and> faults w' = faults w_ex
           \<and> filter is_store_event (trace w') = filter is_store_event (trace w_ex)
           \<and> logged w' = logged w_ex @ [Error (Caught (ENOENT [''uploads'', ''b1'', ''paper-50-sources.jar'']))])"
proof -
  have h1: "fst (ensure_dir (downloadsPath cfg_ex md_missing) w_ex) = Inr ()"
    by code_simp
  have h2: "fst (copy_loop folder_ex (downloadsPath cfg_ex md_missing) (downloads md_missing)
            (snd (ensure_dir (downloadsPath cfg_ex md_missing) w_ex)))
       = Inl (ENOENT [''uploads'', ''b1'', ''paper-50-sources.jar''])"
    by code_simp
  from h1 h2 failed_copy_touches_no_store [OF h1 h2] show ?thesis
    by (intro conjI)
qed

section \<open>The destination directory\<close>

text \<open>
  Claim C10. Let no regular file lie at the destination directory
  \<^verbatim>\<open>storage-root/project/version/number\<close> or at one of its ancestors. Then for every
  descriptor and every staging directory, whatever the downloads are, \<^verbatim>\<open>insert\<close> first
  checks the directory, creates it with its parents when it is missing, and only then
  does anything else; when \<^verbatim>\<open>insert\<close> ends, however it ends, the directory is there.
\<close>

theorem destination_directory_created_first:
  assumes free: "list_all (\<lambda>q. \<not> is_file (files w) q) (prefixes (downloadsPath cfg md))"
  shows "\<exists>r w' evs. insert_metadata cfg md folder w = (r, w')
           \<and> lookup (files w') (downloadsPath cfg md) = Some Dir
           \<and> trace w' = trace w @ EvExists (downloadsPath cfg md)
                 # (if existsSync (files w) (downloadsPath cfg md) then []
                    else [EvMkdir (downloadsPath cfg md)]) @ evs
           \<and> (\<not> existsSync (files w) (downloadsPath cfg md) \<longrightarrow>
                 (\<forall>q. prefix q (downloadsPath cfg md) \<longrightarrow> lookup (files w') q = Some Dir))"
proof -
  let ?dp = "downloadsPath cfg md"
  from mkdirSync_ok [OF free] obtain fs' where
    mk: "mkdirSync (files w) ?dp = Inr fs'" and
    mkd: "\<forall>q. prefix q ?dp \<longrightarrow> lookup fs' q = Some Dir"
    by blast
  from free have nf: "\<not> is_file (files w) ?dp" by (simp add: list_all_iff)
  define w1 where "w1 = (if existsSync (files w) ?dp then emit (EvExists ?dp) w
                         else emit (EvMkdir ?dp) (emit (EvExists ?dp) w)\<lparr>files := fs'\<rparr>)"
  have d: "ensure_dir ?dp w = (Inr (), w1)"
    by (simp add: ensure_dir_def Let_def mk w1_def)
  have dir1: "lookup (files w1) ?dp = Some Dir"
  proof (cases "existsSync (files w) ?dp")
    case True
    with nf show ?thesis
      by (auto simp: w1_def existsSync_def is_file_def split: node.splits)
  next
    case False
    with mkd show ?thesis by (simp add: w1_def)
  qed
  have par1: "\<not> existsSync (files w) ?dp \<longrightarrow> (\<forall>q. prefix q ?dp \<longrightarrow> lookup (files w1) q = Some Dir)"
    using mkd by (simp add: w1_def)
  have tr1: "trace w1 = trace w @ EvExists ?dp # (if existsSync (files w) ?dp then [] else [EvMkdir ?dp])"
    by (simp add: w1_def)
  obtain rc w2 where c: "copy_loop folder ?dp (downloads md) w1 = (rc, w2)" by fastforce
  from copy_loop_frame [OF c] obtain cevs where
    tr2: "trace w2 = trace w1 @ cevs" by blast
  have keep2: "\<And>p. lookup (files w1) p = Some Dir \<Longrightarrow> lookup (files w2) p = Some Dir"
    by (rule copy_loop_keeps_dirs [OF c])
  show ?thesis
  proof (cases rc)
    case (Inl e)
    with c d have ins: "insert_metadata cfg md folder w = (Inr (), logger (Error (Caught e)) w2)"
      by (simp add: insert_metadata_def)
    show ?thesis
      using ins dir1 par1 keep2 tr1 tr2 by auto
  next
    case (Inr u)
    obtain r w3 where s: "store_phase md w2 = (r, w3)" by fastforce
    with c d Inr have ins: "insert_metadata cfg md folder w = (r, w3)"
      by (simp add: insert_metadata_def)
    from store_phase_frame(1,2) [OF s] obtain sevs where
      f3: "files w3 = files w2" and tr3: "trace w3 = trace w2 @ sevs @ [EvClose]"
      by blast
    show ?thesis
      using ins dir1 par1 keep2 tr1 tr2 tr3 f3 by auto
  qed
qed

theorem destination_directory_created_first_witness:
  "list_all (\<lambda>q. \<not> is_file (files w_ex) q) (prefixes (downloadsPath cfg_ex md_none))
   \<and> \<not> existsSync (files w_ex) [''storage'', ''paper'', ''1.19.4'', ''50'']
   \<and> (\<exists>r w' evs. insert_metadata cfg_ex md_none folder_ex w_ex = (r, w')
          \<and> lookup (files w') [''storage'', ''paper'', ''1.19.4'', ''50''] = Some Dir
          \<and> lookup (files w') [''storage'', ''paper''] = Some Dir
          \<and> trace w' = EvExists [''storage'', ''paper'', ''1.19.4'', ''50'']
                # EvMkdir [''storage'', ''paper'', ''1.19.4'', ''50''] # evs)
   \<and> (\<exists>r w'. insert_metadata cfg_ex md_missing folder_ex w_ex = (r, w')
          \<and> lookup (files w') [''storage'', ''paper'', ''1.19.4'', ''50''] = Some Dir)"
proof -
  have h1: "list_all (\<lambda>q. \<not> is_file (files w_ex) q) (prefixes (downloadsPath cfg_ex md_none))"
    by code_simp
  have h2: "list_all (\<lambda>q. \<not> is_file (files w_ex) q) (prefixes (downloadsPath cfg_ex md_missing))"
    by code_simp
  have p1: "downloadsPath cfg_ex md_none = [''storage'', ''paper'', ''1.19.4'', ''50'']"
    by code_simp
  have p2: "downloadsPath cfg_ex md_missing = [''storage'', ''paper'', ''1.19.4'', ''50'']"
    by code_simp
  have ne: "\<not> existsSync (files w_ex) [''storage'', ''paper'', ''1.19.4'', ''50'']"
    by code_simp
  have pr: "prefix [''storage'', ''paper''] [''storage'', ''paper'', ''1.19.4'', ''50'']"
    by simp
  have t: "trace w_ex = []" by (simp add: w_ex_def)
  from destination_directory_created_first [OF h1, of folder_ex] ne pr
  have a: "\<exists>r w' evs. insert_metadata cfg_ex md_none folder_ex w_ex = (r, w')
          \<and> lookup (files w') [''storage'', ''paper'', ''1.19.4'', ''50''] = Some Dir
          \<and> lookup (files w') [''storage'', ''paper''] = Some Dir
          \<and> trace w' = EvExists [''storage'', ''paper'', ''1.19.4'', ''50'']
                # EvMkdir [''storage'', ''paper'', ''1.19.4'', ''50''] # evs"
    unfolding p1 t by fastforce
  from destination_directory_created_first [OF h2, of folder_ex]
  have b: "\<exists>r w'. insert_metadata cfg_ex md_missing folder_ex w_ex = (r, w')
          \<and> lookup (files w') [''storage'', ''paper'', ''1.19.4'', ''50''] = Some Dir"
    unfolding p2 by blast
  from h1 ne a b show ?thesis by blast
qed

section \<open>What the staging cleaner removes\<close>

text \<open>
  Claim C8. When the staging directory is the watched directory itself (an existing
  directory of a file system with proper entry names), the cleaner removes exactly the
  regular files directly inside it: the directory, its subdirectories and everything
  below them stay as they were. Otherwise it removes the staging directory and every
  path below it, and nothing else.
\<close>

theorem staging_clean_removes:
  "(folder = uploadFolder cfg \<and> lookup (files w) folder = Some Dir \<and> wf_fs (files w) \<longrightarrow>
      (\<exists>w'. staging_clean cfg folder w = (Inr (), w')
         \<and> lookup (files w') folder = Some Dir
         \<and> (\<forall>p. lookup (files w') p
                = (if p \<noteq> [] \<and> butlast p = folder \<and> is_file (files w) p then None
                   else lookup (files w) p))))
   \<and> (folder \<noteq> uploadFolder cfg \<and> folder \<noteq> [] \<longrightarrow>
      (\<exists>w'. staging_clean cfg folder w = (Inr (), w')
         \<and> (\<forall>p. lookup (files w') p = (if prefix folder p then None else lookup (files w) p))))"
proof (intro conjI impI)
  assume a: "folder = uploadFolder cfg \<and> lookup (files w) folder = Some Dir \<and> wf_fs (files w)"
  let ?fs = "files w"
  let ?w1 = "emit (EvReaddir folder) w"
  from a have up: "folder = uploadFolder cfg" and isdir: "lookup ?fs folder = Some Dir"
    and wf: "wf_fs ?fs" by blast+
  have rd: "readdirSync ?fs folder = Inr (map (\<lambda>q. (last q, is_file ?fs q)) (children ?fs folder))"
    by (simp add: readdirSync_def isdir)
  from rm_each_children [OF children_props(1,2) [OF wf], of folder ?w1] obtain w' where
    r: "rm_each folder (map (\<lambda>q. (last q, is_file ?fs q)) (children ?fs folder)) ?w1 = (Inr (), w')" and
    l: "\<forall>p. lookup (files w') p
             = (if p \<in> set (children ?fs folder) \<and> is_file ?fs p then None else lookup ?fs p)"
    by auto
  have "staging_clean cfg folder w
          = (case readdirSync (files ?w1) folder of
               Inl e \<Rightarrow> (Inl e, ?w1)
             | Inr entries \<Rightarrow> rm_each folder entries ?w1)"
    by (simp add: staging_clean_def Let_def up [symmetric])
  also have "\<dots> = (Inr (), w')"
    by (simp add: rd r)
  finally have sc: "staging_clean cfg folder w = (Inr (), w')" .
  have eff: "\<forall>p. lookup (files w') p
                = (if p \<noteq> [] \<and> butlast p = folder \<and> is_file ?fs p then None else lookup ?fs p)"
  proof
    fix p
    have c2: "p \<in> set (children ?fs folder) \<Longrightarrow> p \<noteq> [] \<and> butlast p = folder"
      using children_props(2) [OF wf, of folder] by simp
    have c3: "p \<noteq> [] \<Longrightarrow> butlast p = folder \<Longrightarrow> is_file ?fs p \<Longrightarrow> p \<in> set (children ?fs folder)"
      by (rule children_props(3) [OF wf])
    have "(p \<in> set (children ?fs folder) \<and> is_file ?fs p)
            = (p \<noteq> [] \<and> butlast p = folder \<and> is_file ?fs p)"
      using c2 c3 by blast
    then show "lookup (files w') p
                = (if p \<noteq> [] \<and> butlast p = folder \<and> is_file ?fs p then None else lookup ?fs p)"
      by (simp only: l [rule_format, of p])
  qed
  have nofile: "\<not> is_file ?fs folder"
    by (simp add: is_file_def isdir)
  have keep: "lookup (files w') folder = Some Dir"
    by (simp only: eff [rule_format, of folder] nofile isdir simp_thms if_False)
  show "\<exists>w'. staging_clean cfg folder w = (Inr (), w')
         \<and> lookup (files w') folder = Some Dir
         \<and> (\<forall>p. lookup (files w') p
                = (if p \<noteq> [] \<and> butlast p = folder \<and> is_file (files w) p then None
                   else lookup (files w) p))"
    by (rule exI [of _ w'], intro conjI) (rule sc, rule keep, rule eff)
next
  assume b: "folder \<noteq> uploadFolder cfg \<and> folder \<noteq> []"
  then have ne: "folder \<noteq> []" and nu: "folder \<noteq> uploadFolder cfg" by blast+
  let ?w' = "emit (EvRmRecursive folder) w\<lparr>files := rmSync_rf (files w) folder\<rparr>"
  have sc: "staging_clean cfg folder w = (Inr (), ?w')"
    by (simp add: staging_clean_def Let_def nu)
  have eff: "\<forall>p. lookup (files ?w') p = (if prefix folder p then None else lookup (files w) p)"
    by (simp add: lookup_rmSync_rf [OF ne])
  show "\<exists>w'. staging_clean cfg folder w = (Inr (), w')
         \<and> (\<forall>p. lookup (files w') p = (if prefix folder p then None else lookup (files w) p))"
    by (rule exI [of _ ?w'], intro conjI) (rule sc, rule eff)
qed

theorem staging_clean_removes_witness:
  "lookup (files w_root) [''uploads''] = Some Dir \<and> wf_fs (files w_root)
   \<and> (\<exists>w'. staging_clean cfg_ex [''uploads''] w_root = (Inr (), w')
         \<and> lookup (files w') [''uploads''] = Some Dir
         \<and> lookup (files w') [''uploads'', ''metadata.json''] = None
         \<and> lookup (files w') [''uploads'', ''paper-50.jar''] = None
         \<and> lookup (files w') [''uploads'', ''b2''] = Some Dir
         \<and> lookup (files w') [''uploads'', ''b2'', ''other.jar''] = Some (File ''OTHER''))
   \<and> (\<exists>w'. staging_clean cfg_ex folder_ex w_ex = (Inr (), w')
         \<and> lookup (files w') [''uploads''] = Some Dir
         \<and> lookup (files w') folder_ex = None
         \<and> lookup (files w') [''uploads'', ''b1'', ''metadata.json''] = None
         \<and> lookup (files w') [''uploads'', ''b1'', ''paper-50.jar''] = None)"
proof -
  have u: "uploadFolder cfg_ex = [''uploads'']" by (simp add: cfg_ex_def)
  have h1: "lookup (files w_root) [''uploads''] = Some Dir" by code_simp
  have h2: "wf_fs (files w_root)" by code_simp
  have h3: "folder_ex \<noteq> uploadFolder cfg_ex \<and> folder_ex \<noteq> []" by code_simp
  have f: "is_file (files w_root) [''uploads'', ''metadata.json'']"
    "is_file (files w_root) [''uploads'', ''paper-50.jar'']"
    "lookup (files w_root) [''uploads'', ''b2''] = Some Dir"
    "lookup (files w_root) [''uploads'', ''b2'', ''other.jar''] = Some (File ''OTHER'')"
    "\<not> is_file (files w_root) [''uploads'', ''b2'']"
    by code_simp+
  have g: "lookup (files w_ex) [''uploads''] = Some Dir" by code_simp
  from staging_clean_removes [of "[''uploads'']" cfg_ex w_root, THEN conjunct1] u h1 h2
  obtain w' where
    s: "staging_clean cfg_ex [''uploads''] w_root = (Inr (), w')"
      "lookup (files w') [''uploads''] = Some Dir" and
    e: "\<forall>p. lookup (files w') p
                = (if p \<noteq> [] \<and> butlast p = [''uploads''] \<and> is_file (files w_root) p then None
                   else lookup (files w_root) p)"
    by auto
  have a: "\<exists>w'. staging_clean cfg_ex [''uploads''] w_root = (Inr (), w')
         \<and> lookup (files w') [''uploads''] = Some Dir
         \<and> lookup (files w') [''uploads'', ''metadata.json''] = None
         \<and> lookup (files w') [''uploads'', ''paper-50.jar''] = None
         \<and> lookup (files w') [''uploads'', ''b2''] = Some Dir
         \<and> lookup (files w') [''uploads'', ''b2'', ''other.jar''] = Some (File ''OTHER'')"
    using s e [rule_format, of "[''uploads'', ''metadata.json'']"]
      e [rule_format, of "[''uploads'', ''paper-50.jar'']"]
      e [rule_format, of "[''uploads'', ''b2'']"]
      e [rule_format, of "[''uploads'', ''b2'', ''other.jar'']"] f
    by auto
  from staging_clean_removes [of folder_ex cfg_ex w_ex, THEN conjunct2] h3
  obtain w'' where
    s2: "staging_clean cfg_ex folder_ex w_ex = (Inr (), w'')" and
    e2: "\<forall>p. lookup (files w'') p = (if prefix folder_ex p then None else lookup (files w_ex) p)"
    by auto
  have b: "\<exists>w'. staging_clean cfg_ex folder_ex w_ex = (Inr (), w')
         \<and> lookup (files w') [''uploads''] = Some Dir
         \<and> lookup (files w') folder_ex = None
         \<and> lookup (files w') [''uploads'', ''b1'', ''metadata.json''] = None
         \<and> lookup (files w') [''uploads'', ''b1'', ''paper-50.jar''] = None"
    using s2 e2 [rule_format, of "[''uploads'']"] e2 [rule_format, of folder_ex]
      e2 [rule_format, of "[''uploads'', ''b1'', ''metadata.json'']"]
      e2 [rule_format, of "[''uploads'', ''b1'', ''paper-50.jar'']"] g
    by (auto simp: folder_ex_def)
  from h1 h2 a b show ?thesis by blast
qed

section \<open>The descriptor reader\<close>

text \<open>
  Claim C6. When the added file is a regular file named \<^verbatim>\<open>metadata.json\<close> whose content
  reads as the empty string, the handler ends without ingesting: it logs that the file
  is empty, makes no call to the store driver (the only operation is the read) and
  leaves the store and the files as they were.
\<close>

theorem empty_descriptor_aborts_without_store_access:
  assumes regular: "lstat_isDirectory (files w) filepath = Inr False"
    and descriptor: "basename filepath = ''metadata.json''"
    and empty: "readFileSync (files (sleep1000 w)) filepath = Inr []"
  shows "\<exists>w'. on_add cfg JSON_parse filepath w = Some (Aborted, w')
           \<and> store w' = store w
           \<and> faults w' = faults w
           \<and> files w' = files (sleep1000 w)
           \<and> logged w' = logged w @ [Info MetadataUploaded, Error (MetadataEmpty filepath)]
           \<and> trace w' = trace w @ [EvRead filepath]"
proof -
  let ?folder = "dirname filepath"
  let ?w0 = "logger (Info MetadataUploaded) w"
  let ?w1 = "emit (EvRead filepath) (sleep1000 ?w0)"
  have body: "read_attempt cfg JSON_parse filepath ?folder ?w0
                = (Break, logger (Error (MetadataEmpty filepath)) ?w1)"
    using empty by (simp add: read_attempt_def Let_def)
  have "while_true (read_attempt cfg JSON_parse filepath ?folder) ?w0
          = Some (read_attempt cfg JSON_parse filepath ?folder ?w0)"
    by (rule while_true_once) (rule read_attempt_never_continues)
  with body have loop: "while_true (read_attempt cfg JSON_parse filepath ?folder) ?w0
          = Some (Break, logger (Error (MetadataEmpty filepath)) ?w1)"
    by simp
  have "on_add cfg JSON_parse filepath w = Some (Aborted, logger (Error (MetadataEmpty filepath)) ?w1)"
    by (simp add: on_add_def Let_def regular descriptor metadata_json_is_no_jar loop)
  then show ?thesis by simp
qed

theorem empty_descriptor_aborts_without_store_access_witness:
  "lstat_isDirectory (files w_empty) filepath_ex = Inr False
   \<and> basename filepath_ex = ''metadata.json''
   \<and> readFileSync (files (sleep1000 w_empty)) filepath_ex = Inr []
   \<and> (\<exists>w'. on_add cfg_ex parse_ex filepath_ex w_empty = Some (Aborted, w')
          \<and> store w' = empty_store
          \<and> logged w' = [Info MetadataUploaded, Error (MetadataEmpty filepath_ex)]
          \<and> trace w' = [EvRead filepath_ex])"
proof -
  have h1: "lstat_isDirectory (files w_empty) filepath_ex = Inr False" by code_simp
  have h2: "basename filepath_ex = ''metadata.json''" by code_simp
  have h3: "readFileSync (files (sleep1000 w_empty)) filepath_ex = Inr []" by code_simp
  have l: "store w_empty = empty_store" "logged w_empty = []" "trace w_empty = []"
    by (simp_all add: w_empty_def w_ex_def)
  from empty_descriptor_aborts_without_store_access [OF h1 h2 h3, of cfg_ex parse_ex] l
  have "\<exists>w'. on_add cfg_ex parse_ex filepath_ex w_empty = Some (Aborted, w')
          \<and> store w' = empty_store
          \<and> logged w' = [Info MetadataUploaded, Error (MetadataEmpty filepath_ex)]
          \<and> trace w' = [EvRead filepath_ex]"
    by auto
  with h1 h2 h3 show ?thesis by blast
qed

text \<open>
  Claim C3: the program departs from its last clause, and from its own comment on line
  70. On the upload whose descriptor the uploader is still replacing, the file is there
  when the event is handled, the read one second later throws because the file is gone
  for the moment, and a second later the complete file is in place. The handler logs
  the read error and leaves the loop after this single read: the error is surfaced, the
  complete file is never read and nothing is ingested. Had the file been complete at the
  first read, the same upload would have been ingested. Lemma \<open>read_error_ends_the_loop\<close>
  shows the same for every exception of the read.
\<close>

theorem reader_gives_up_on_read_error:
  "lstat_isDirectory (files w_replaced) filepath_ex = Inr False
   \<and> readFileSync (files (sleep1000 w_replaced)) filepath_ex = Inl (ENOENT filepath_ex)
   \<and> readFileSync (files (sleep1000 (sleep1000 w_replaced))) filepath_ex = Inr descriptor_text
   \<and> map_option fst (on_add cfg_ex parse_ex filepath_ex w_replaced) = Some Aborted
   \<and> map_option (\<lambda>r. logged (snd r)) (on_add cfg_ex parse_ex filepath_ex w_replaced)
       = Some [Info MetadataUploaded, Error (ReadingFailed filepath_ex (ENOENT filepath_ex))]
   \<and> map_option (\<lambda>r. trace (snd r)) (on_add cfg_ex parse_ex filepath_ex w_replaced)
       = Some [EvRead filepath_ex]
   \<and> map_option (\<lambda>r. ticks (snd r)) (on_add cfg_ex parse_ex filepath_ex w_replaced)
       = Some [[ExtWrite filepath_ex descriptor_text]]
   \<and> map_option (\<lambda>r. builds (store (snd r))) (on_add cfg_ex parse_ex filepath_ex w_replaced)
       = Some []
   \<and> map_option fst (on_add cfg_ex parse_ex filepath_ex
          (w_replaced\<lparr>ticks := [[ExtWrite filepath_ex descriptor_text]]\<rparr>)) = Some Ingested"
  by code_simp

end
